theory Spec2Isabelle
  imports Main "HOL-Library.Sublist"
begin

section \<open>Strings\<close>

text \<open>
  A JavaScript string is modelled as a \<^typ>\<open>string\<close>: a list of code units, each below 256
  (the Latin-1 range of UTF-16).  The functions below are the built-in string methods the
  engine calls, on that range.
\<close>

text \<open>White space as \<^verbatim>\<open>\s\<close>, \<^verbatim>\<open>trim\<close> and \<^verbatim>\<open>trimStart\<close> see it: TAB, LF, VT, FF, CR, space, NBSP.\<close>

definition is_ws :: "char \<Rightarrow> bool" where
  "is_ws c = (c \<in> set [CHR 0x09, CHR 0x0A, CHR 0x0B, CHR 0x0C, CHR 0x0D, CHR 0x20, CHR 0xA0])"

text \<open>\<^verbatim>\<open>String.prototype.toLowerCase\<close>: A-Z and the Latin-1 capitals move up by 32.\<close>

definition lower_char :: "char \<Rightarrow> char" where
  "lower_char c =
     (let n = (of_char c :: nat) in
      if (65 \<le> n \<and> n \<le> 90) \<or> (192 \<le> n \<and> n \<le> 222 \<and> n \<noteq> 215)
      then char_of (n + 32) else c)"

definition toLowerCase :: "string \<Rightarrow> string" where
  "toLowerCase s = map lower_char s"

text \<open>
  The canonical form of a code unit under the \<^verbatim>\<open>i\<close> flag of a regular expression: its
  upper-case form when that is again one code unit of the range.
\<close>

definition canon_char :: "char \<Rightarrow> char" where
  "canon_char c =
     (let n = (of_char c :: nat) in
      if (97 \<le> n \<and> n \<le> 122) \<or> (224 \<le> n \<and> n \<le> 254 \<and> n \<noteq> 247)
      then char_of (n - 32) else c)"

definition startsWith :: "string \<Rightarrow> string \<Rightarrow> bool" where
  "startsWith s p = (take (length p) s = p)"

fun str_includes :: "string \<Rightarrow> string \<Rightarrow> bool" where
  "str_includes [] p = (p = [])"
| "str_includes (c # s) p = (startsWith (c # s) p \<or> str_includes s p)"

definition trimStart :: "string \<Rightarrow> string" where
  "trimStart s = dropWhile is_ws s"

definition trim :: "string \<Rightarrow> string" where
  "trim s = rev (dropWhile is_ws (rev (dropWhile is_ws s)))"

text \<open>\<^verbatim>\<open>s.split(c)[0]\<close> for a one-character separator: the text before its first occurrence.\<close>

definition split_first :: "char \<Rightarrow> string \<Rightarrow> string" where
  "split_first c s = takeWhile (\<lambda>x. x \<noteq> c) s"

text \<open>\<^verbatim>\<open>s.split(c).pop()\<close>: the text after the last occurrence of the separator.\<close>

definition split_pop :: "char \<Rightarrow> string \<Rightarrow> string" where
  "split_pop c s = rev (takeWhile (\<lambda>x. x \<noteq> c) (rev s))"

text \<open>\<^verbatim>\<open>s.split(",")\<close>: all pieces, in order.\<close>

fun split_all :: "char \<Rightarrow> string \<Rightarrow> string list" where
  "split_all c [] = [[]]"
| "split_all c (x # s) =
     (if x = c then [] # split_all c s
      else (case split_all c s of p # ps \<Rightarrow> (x # p) # ps | [] \<Rightarrow> [[x]]))"

section \<open>Regular expressions\<close>

text \<open>
  The patterns of the engine, as syntax trees, and a backtracking matcher for them.  A
  repetition is always the repetition of one character class, as in every pattern of the
  source (\<^verbatim>\<open>\s*\<close>, \<^verbatim>\<open>.*?\<close>, \<^verbatim>\<open>[^'"]+\<close>); no quantified part of a source pattern holds
  a capture group.
\<close>

datatype regex =
    Eps
  | Lit char
  | Cls "char \<Rightarrow> bool"
  | Seq regex regex
  | Alt regex regex
  | Opt regex
  | Rep bool "char \<Rightarrow> bool"
  | Grp nat regex
  | Backref nat
  | WordB

text \<open>
  \<open>Rep True p\<close> is the greedy \<^verbatim>\<open>p*\<close>, \<open>Rep False p\<close> the lazy \<^verbatim>\<open>p*?\<close>; \<open>Opt r\<close> is the
  greedy \<^verbatim>\<open>r?\<close>; \<open>WordB\<close> is \<^verbatim>\<open>\b\<close>.
\<close>

definition plus :: "(char \<Rightarrow> bool) \<Rightarrow> regex" where
  "plus p = Seq (Cls p) (Rep True p)"

definition seqs :: "regex list \<Rightarrow> regex" where
  "seqs rs = foldr Seq rs Eps"

definition lit :: "string \<Rightarrow> regex" where
  "lit s = seqs (map Lit s)"

text \<open>
  A position of the matcher: the code unit before it (for \<^verbatim>\<open>\b\<close>), the text from it on,
  and the captures so far (a group that took no part is \<^verbatim>\<open>undefined\<close>: \<open>None\<close>).
\<close>

record mstate =
  m_prev :: "char option"
  m_rest :: string
  m_caps :: "nat \<Rightarrow> string option"

definition is_word_char :: "char \<Rightarrow> bool" where
  "is_word_char c =
     (let n = (of_char c :: nat) in
      (97 \<le> n \<and> n \<le> 122) \<or> (65 \<le> n \<and> n \<le> 90) \<or> (48 \<le> n \<and> n \<le> 57) \<or> n = 95)"

definition eq_char :: "bool \<Rightarrow> char \<Rightarrow> char \<Rightarrow> bool" where
  "eq_char ic a b = (if ic then canon_char a = canon_char b else a = b)"

definition advance :: "nat \<Rightarrow> mstate \<Rightarrow> mstate" where
  "advance n st =
     (if n = 0 then st
      else st\<lparr>m_prev := Some (m_rest st ! (n - 1)), m_rest := drop n (m_rest st)\<rparr>)"

definition at_boundary :: "mstate \<Rightarrow> bool" where
  "at_boundary st =
     ((case m_prev st of None \<Rightarrow> False | Some c \<Rightarrow> is_word_char c)
      \<noteq> (case m_rest st of [] \<Rightarrow> False | c # _ \<Rightarrow> is_word_char c))"

text \<open>
  All the ways the pattern matches at a position, in the order a backtracking matcher
  tries them; the first is the match.  \<open>ic\<close> is the \<^verbatim>\<open>i\<close> flag.
\<close>

fun matches :: "bool \<Rightarrow> regex \<Rightarrow> mstate \<Rightarrow> mstate list" where
  "matches ic Eps st = [st]"
| "matches ic (Lit c) st =
     (case m_rest st of
        [] \<Rightarrow> []
      | x # xs \<Rightarrow> if eq_char ic x c then [advance 1 st] else [])"
| "matches ic (Cls p) st =
     (case m_rest st of
        [] \<Rightarrow> []
      | x # xs \<Rightarrow> if p x then [advance 1 st] else [])"
| "matches ic (Seq a b) st = concat (map (matches ic b) (matches ic a st))"
| "matches ic (Alt a b) st = matches ic a st @ matches ic b st"
| "matches ic (Opt a) st =
     filter (\<lambda>s. length (m_rest s) < length (m_rest st)) (matches ic a st) @ [st]"
| "matches ic (Rep greedy p) st =
     (let n = length (takeWhile p (m_rest st));
          ks = (if greedy then rev [0..<Suc n] else [0..<Suc n])
      in map (\<lambda>k. advance k st) ks)"
| "matches ic (Grp g r) st =
     map (\<lambda>s. s\<lparr>m_caps := (m_caps s)
                 (g \<mapsto> take (length (m_rest st) - length (m_rest s)) (m_rest st))\<rparr>)
       (matches ic r st)"
| "matches ic (Backref g) st =
     (case m_caps st g of
        None \<Rightarrow> [st]
      | Some w \<Rightarrow>
          if length w \<le> length (m_rest st)
             \<and> list_all2 (eq_char ic) (take (length w) (m_rest st)) w
          then [advance (length w) st] else [])"
| "matches ic WordB st = (if at_boundary st then [st] else [])"

text \<open>
  One call of \<^verbatim>\<open>exec\<close>: the first position, from the current one on, where the pattern
  matches, with all captures reset.  \<open>None\<close> is \<^verbatim>\<open>null\<close>.
\<close>

fun search :: "bool \<Rightarrow> regex \<Rightarrow> char option \<Rightarrow> string \<Rightarrow> mstate option" where
  "search ic r p [] =
     (case matches ic r \<lparr>m_prev = p, m_rest = [], m_caps = (\<lambda>_. None)\<rparr> of
        [] \<Rightarrow> None | st # _ \<Rightarrow> Some st)"
| "search ic r p (x # xs) =
     (case matches ic r \<lparr>m_prev = p, m_rest = x # xs, m_caps = (\<lambda>_. None)\<rparr> of
        [] \<Rightarrow> search ic r (Some x) xs | st # _ \<Rightarrow> Some st)"

text \<open>\<^verbatim>\<open>pattern.test(text)\<close> of a pattern without the \<^verbatim>\<open>g\<close> flag.\<close>

definition regex_test :: "regex \<Rightarrow> string \<Rightarrow> bool" where
  "regex_test r s = (search False r None s \<noteq> None)"

text \<open>
  What a call can do besides returning: throw, or never return.
\<close>

datatype 'a outcome = Returns 'a | Throws | Spins

text \<open>
  The loop \<^verbatim>\<open>while ((match = pattern.exec(text)) !== null) body\<close> of a pattern with the
  \<^verbatim>\<open>g\<close> flag.  Each \<^verbatim>\<open>exec\<close> starts at \<^verbatim>\<open>lastIndex\<close>, the end of the previous match.  A
  match that ends where the search started leaves \<^verbatim>\<open>lastIndex\<close> as it was, so the next
  \<^verbatim>\<open>exec\<close> finds it again and the loop never ends: \<open>Spins\<close>.
\<close>

function while_exec ::
  "bool \<Rightarrow> regex \<Rightarrow> ((nat \<Rightarrow> string option) \<Rightarrow> 'a \<Rightarrow> 'a outcome) \<Rightarrow> 'a \<Rightarrow> char option \<Rightarrow> string
     \<Rightarrow> 'a outcome" where
  "while_exec ic r body acc p s =
     (case search ic r p s of
        None \<Rightarrow> Returns acc
      | Some st \<Rightarrow>
          (case body (m_caps st) acc of
             Returns acc' \<Rightarrow>
               if length (m_rest st) < length s
               then while_exec ic r body acc' (m_prev st) (m_rest st)
               else Spins
           | Throws \<Rightarrow> Throws
           | Spins \<Rightarrow> Spins))"
  by pat_completeness auto
termination
  by (relation "measure (\<lambda>(ic, r, body, acc, p, s). length s)") auto

declare while_exec.simps [simp del]

section \<open>Dependency extractors\<close>

definition is_quote :: "char \<Rightarrow> bool" where
  "is_quote c = (c = CHR 0x27 \<or> c = CHR 0x22)"

text \<open>The class of \<^verbatim>\<open>.\<close>: anything but a line terminator.\<close>

definition is_dot :: "char \<Rightarrow> bool" where
  "is_dot c = (c \<noteq> CHR 0x0A \<and> c \<noteq> CHR 0x0D)"

text \<open>The class \<^verbatim>\<open>[^'")\s]\<close>.\<close>

definition is_import_char :: "char \<Rightarrow> bool" where
  "is_import_char c = (\<not> (is_quote c \<or> c = CHR '')'' \<or> is_ws c))"

text \<open>The class \<^verbatim>\<open>[^'"]\<close>.\<close>

definition not_quote :: "char \<Rightarrow> bool" where
  "not_quote c = (\<not> is_quote c)"

text \<open>\<^verbatim>\<open>/url\(\s*(['"]?)(.*?)\1\s*\)/gi\<close>\<close>

definition urlPattern :: regex where
  "urlPattern =
     seqs [lit ''url('', Rep True is_ws, Grp 1 (Opt (Cls is_quote)), Grp 2 (Rep False is_dot),
           Backref 1, Rep True is_ws, Lit (CHR '')'')]"

text \<open>\<^verbatim>\<open>/@import\s+(?:url\(\s*)?(['"]?)([^'")\s]+)\1\s*\)?/gi\<close>\<close>

definition cssImportPattern :: regex where
  "cssImportPattern =
     seqs [lit ''@import'', plus is_ws, Opt (seqs [lit ''url('', Rep True is_ws]),
           Grp 1 (Opt (Cls is_quote)), Grp 2 (plus is_import_char), Backref 1, Rep True is_ws,
           Opt (Lit (CHR '')''))]"

record CssDependencies =
  css_imports :: "string list"
  css_urls :: "string list"

text \<open>
  The body of both loops of \<^verbatim>\<open>extractCssDependencies\<close>: \<^verbatim>\<open>match[2].trim()\<close>, pushed when
  it is not empty.  On a group that took no part, \<^verbatim>\<open>match[2]\<close> is \<^verbatim>\<open>undefined\<close> and the
  call of \<^verbatim>\<open>trim\<close> throws.
\<close>

definition push_trimmed :: "(nat \<Rightarrow> string option) \<Rightarrow> string list \<Rightarrow> string list outcome" where
  "push_trimmed m acc =
     (case m 2 of
        None \<Rightarrow> Throws
      | Some u \<Rightarrow> Returns (if length (trim u) > 0 then acc @ [trim u] else acc))"

definition extractCssDependencies :: "string \<Rightarrow> CssDependencies outcome" where
  "extractCssDependencies cssText =
     (case while_exec True urlPattern push_trimmed [] None cssText of
        Returns urls \<Rightarrow>
          (case while_exec True cssImportPattern push_trimmed [] None cssText of
             Returns imps \<Rightarrow> Returns \<lparr>css_imports = imps, css_urls = urls\<rparr>
           | Throws \<Rightarrow> Throws
           | Spins \<Rightarrow> Spins)
      | Throws \<Rightarrow> Throws
      | Spins \<Rightarrow> Spins)"

text \<open>\<^verbatim>\<open>/\bimport\s+(?:[^'"]+from\s+)?['"]([^'"]+)['"]/g\<close>\<close>

definition jsImportPattern :: regex where
  "jsImportPattern =
     seqs [WordB, lit ''import'', plus is_ws,
           Opt (seqs [plus not_quote, lit ''from'', plus is_ws]),
           Cls is_quote, Grp 1 (plus not_quote), Cls is_quote]"

text \<open>\<^verbatim>\<open>/\bimport\(\s*['"]([^'"]+)['"]\s*\)/g\<close>\<close>

definition dynamicImportPattern :: regex where
  "dynamicImportPattern =
     seqs [WordB, lit ''import('', Rep True is_ws, Cls is_quote, Grp 1 (plus not_quote),
           Cls is_quote, Rep True is_ws, Lit (CHR '')'')]"

text \<open>\<^verbatim>\<open>/\bimportScripts\(\s*['"]([^'"]+)['"]\s*\)/g\<close>\<close>

definition importScriptsPattern :: regex where
  "importScriptsPattern =
     seqs [WordB, lit ''importScripts('', Rep True is_ws, Cls is_quote, Grp 1 (plus not_quote),
           Cls is_quote, Rep True is_ws, Lit (CHR '')'')]"

text \<open>\<^verbatim>\<open>/\bfetch\(\s*['"]([^'"]+)['"]/g\<close>\<close>

definition fetchPattern :: regex where
  "fetchPattern =
     seqs [WordB, lit ''fetch('', Rep True is_ws, Cls is_quote, Grp 1 (plus not_quote),
           Cls is_quote]"

text \<open>\<^verbatim>\<open>/\.open\(\s*['"][^'"]+['"]\s*,\s*['"]([^'"]+)['"]/g\<close>\<close>

definition xhrPattern :: regex where
  "xhrPattern =
     seqs [lit ''.open('', Rep True is_ws, Cls is_quote, plus not_quote, Cls is_quote,
           Rep True is_ws, Lit (CHR '',''), Rep True is_ws, Cls is_quote,
           Grp 1 (plus not_quote), Cls is_quote]"

text \<open>
  A \<^verbatim>\<open>Set\<close> keeps its members in the order they were first added; it is modelled as the list
  of its members in that order.  A member is a JavaScript value: \<^verbatim>\<open>match[1]\<close> of a group
  that took no part would be \<^verbatim>\<open>undefined\<close> (\<open>None\<close>).
\<close>

definition set_add :: "'a \<Rightarrow> 'a list \<Rightarrow> 'a list" where
  "set_add x xs = (if x \<in> set xs then xs else xs @ [x])"

definition add_group1 ::
  "(nat \<Rightarrow> string option) \<Rightarrow> string option list \<Rightarrow> string option list outcome" where
  "add_group1 m acc = Returns (set_add (m 1) acc)"

record JsDependencies =
  js_imports :: "string option list"
  js_importScripts :: "string option list"
  js_fetches :: "string option list"
  js_xhrs :: "string option list"

text \<open>
  Sequencing of calls that may not return a value.
\<close>

definition and_then :: "'a outcome \<Rightarrow> ('a \<Rightarrow> 'b outcome) \<Rightarrow> 'b outcome" where
  "and_then x f = (case x of Returns a \<Rightarrow> f a | Throws \<Rightarrow> Throws | Spins \<Rightarrow> Spins)"

definition extractJsDependencies :: "string \<Rightarrow> JsDependencies outcome" where
  "extractJsDependencies jsText =
     and_then (while_exec False jsImportPattern add_group1 [] None jsText) (\<lambda>imports1.
     and_then (while_exec False dynamicImportPattern add_group1 imports1 None jsText) (\<lambda>imports2.
     and_then (while_exec False importScriptsPattern add_group1 [] None jsText) (\<lambda>scripts.
     and_then (while_exec False fetchPattern add_group1 [] None jsText) (\<lambda>fetches.
     and_then (while_exec False xhrPattern add_group1 [] None jsText) (\<lambda>xhrs.
       Returns \<lparr>js_imports = imports2, js_importScripts = scripts,
                js_fetches = fetches, js_xhrs = xhrs\<rparr>)))))"

text \<open>
  \<^verbatim>\<open>parseSrcsetUrls\<close>: the candidates between commas, each trimmed and cut at its first run
  of white space (\<^verbatim>\<open>split(/\s+/)[0]\<close>), the empty ones dropped.
\<close>

definition parseSrcsetUrls :: "string \<Rightarrow> string list" where
  "parseSrcsetUrls v =
     filter (\<lambda>u. length u > 0)
       (map (\<lambda>candidate. takeWhile (\<lambda>c. \<not> is_ws c) (trim candidate)) (split_all (CHR '','') v))"

section \<open>Data model and collaborators\<close>

datatype ResourceKind = K_html | K_css | K_js

datatype RequestSource = S_resource | S_img | S_css | S_fetch | S_xhr | S_unknown

record RequestRecord =
  rr_url :: string
  rr_source :: RequestSource
  rr_timestamp :: int

record ResourceContent =
  rc_text :: string
  rc_contentType :: "string option"

text \<open>
  What \<^verbatim>\<open>fetch(url)\<close> and the reading of its response come to: the promise rejects, or
  there is a response with its \<^verbatim>\<open>ok\<close> flag and, when reading the body and the
  \<^verbatim>\<open>content-type\<close> header succeeds, the body text and the header (\<open>None\<close> when that
  reading throws).
\<close>

datatype fetch_result =
    FetchRejects
  | FetchResponse bool "(string \<times> string option) option"

text \<open>
  An element of the document as the harvest reads it: its tag name, whether it is an
  instance of the HTML interface of its tag (\<^verbatim>\<open>HTMLImageElement\<close> for \<^verbatim>\<open>img\<close>, ...), its
  attributes, the reflected \<^verbatim>\<open>src\<close> and \<^verbatim>\<open>href\<close> properties and its text content.
\<close>

record element =
  el_tagName :: string
  el_html :: bool
  el_attrs :: "(string \<times> string) list"
  el_src :: string
  el_href :: string
  el_textContent :: string

text \<open>One call of the interception callback by the rendering environment.\<close>

record intercept =
  ic_url :: string
  ic_referrer :: "string option"
  ic_source :: "RequestSource option"
  ic_element :: "element option"

text \<open>
  What the rendering environment does with one markup text: the callback calls while it
  parses and runs the scripts, the elements of the document in document order when the
  harvest reads them, the callback calls during the settle interval, and the title of
  the document after it.  What a script of the document does after the settle interval is
  outside the model.
\<close>

record dom =
  dom_parse_intercepts :: "intercept list"
  dom_elements :: "element list"
  dom_settle_intercepts :: "intercept list"
  dom_title :: string

text \<open>
  The collaborators of a run.  \<open>env_new_URL url base\<close> is \<^verbatim>\<open>new URL(url, base).toString()\<close>
  (\<^verbatim>\<open>new URL(url)\<close> when \<open>base\<close> is \<open>None\<close>), \<open>None\<close> when the constructor throws;
  \<open>env_fetch_defined\<close> is \<^verbatim>\<open>typeof fetch === "function"\<close>; \<open>env_jsdom html url settle\<close> is
  the rendering environment on a markup text (\<open>None\<close>: it throws); \<open>env_date_now n\<close> is
  \<^verbatim>\<open>Date.now()\<close> when the log holds \<open>n\<close> records.  The retrieval primitive and the
  rendering environment are taken to come back from every call.  The rendering environment
  runs the scripts of the page (\<^verbatim>\<open>runScripts: "dangerously"\<close>), which can read the clock or
  draw a random number: what it reports is a matter of one run, and two runs on the same
  markup are two environments whose \<open>env_jsdom\<close> may differ.
\<close>

record env =
  env_new_URL :: "string \<Rightarrow> string option \<Rightarrow> string option"
  env_fetch_defined :: bool
  env_fetch :: "string \<Rightarrow> fetch_result"
  env_jsdom :: "string \<Rightarrow> string option \<Rightarrow> nat \<Rightarrow> dom option"
  env_date_now :: "nat \<Rightarrow> int"
  env_date_iso :: string

section \<open>URL resolver\<close>

text \<open>
  \<^verbatim>\<open>resolveUrl\<close>: \<^verbatim>\<open>undefined\<close> (\<open>None\<close>) for an empty reference; otherwise what the URL
  constructor serialises to, against the base when the base is truthy, and the reference
  itself when the constructor throws.
\<close>

definition resolveUrl :: "env \<Rightarrow> string option \<Rightarrow> string \<Rightarrow> string option" where
  "resolveUrl e baseUrl url =
     (if url = [] then None
      else if baseUrl \<noteq> None \<and> baseUrl \<noteq> Some []
      then (case env_new_URL e url baseUrl of Some u \<Rightarrow> Some u | None \<Rightarrow> Some url)
      else (case env_new_URL e url None of Some u \<Rightarrow> Some u | None \<Rightarrow> Some url))"

text \<open>The test \<^verbatim>\<open>if (!resolved)\<close>: \<^verbatim>\<open>undefined\<close> and the empty string are falsy.\<close>

definition truthy :: "string option \<Rightarrow> string option" where
  "truthy x = (case x of None \<Rightarrow> None | Some s \<Rightarrow> if s = [] then None else Some s)"

definition isSkippableUrl :: "string \<Rightarrow> bool" where
  "isSkippableUrl url =
     (let lowered = toLowerCase url in
      startsWith lowered ''data:'' \<or> startsWith lowered ''javascript:''
      \<or> startsWith lowered ''about:'')"

section \<open>Resource kind classifier\<close>

definition inferResourceKindFromUrl :: "string \<Rightarrow> ResourceKind option" where
  "inferResourceKindFromUrl url =
     (let cleanUrl = split_first (CHR ''#'') (split_first (CHR ''?'') url);
          extension = toLowerCase (split_pop (CHR ''.'') cleanUrl)
      in if extension = [] then None
         else if extension = ''html'' \<or> extension = ''htm'' then Some K_html
         else if extension = ''css'' then Some K_css
         else if extension = ''js'' \<or> extension = ''mjs'' \<or> extension = ''cjs'' then Some K_js
         else None)"

definition looksLikeJavaScript :: "string \<Rightarrow> bool" where
  "looksLikeJavaScript t =
     (regex_test (seqs [WordB, Grp 1 (Alt (lit ''import'') (lit ''export'')), WordB]) t
      \<or> regex_test (seqs [WordB, Grp 1 (Alt (lit ''const'') (Alt (lit ''let'')
                            (Alt (lit ''var'') (lit ''function'')))), WordB]) t
      \<or> regex_test (seqs [WordB, lit ''fetch'', Rep True is_ws, Lit (CHR ''('')]) t
      \<or> regex_test (seqs [WordB, lit ''XMLHttpRequest'', WordB]) t
      \<or> regex_test (seqs [WordB, lit ''importScripts'', Rep True is_ws, Lit (CHR ''('')]) t)"

definition detectResourceKind :: "string \<Rightarrow> string option \<Rightarrow> string \<Rightarrow> ResourceKind option" where
  "detectResourceKind url contentType body =
     (let normalized = (case contentType of None \<Rightarrow> [] | Some c \<Rightarrow> toLowerCase c) in
      if str_includes normalized ''text/html'' then Some K_html
      else if str_includes normalized ''text/css'' then Some K_css
      else if str_includes normalized ''javascript'' then Some K_js
      else (case inferResourceKindFromUrl url of
              Some inferred \<Rightarrow> Some inferred
            | None \<Rightarrow>
                (let trimmed = trimStart body in
                 if startsWith trimmed ''<!doctype'' \<or> startsWith trimmed ''<html'' then Some K_html
                 else if startsWith trimmed ''<'' then Some K_html
                 else if startsWith trimmed ''@'' \<or> str_includes trimmed ''url('' then Some K_css
                 else if looksLikeJavaScript trimmed then Some K_js
                 else None)))"

definition detectInputKind :: "string \<Rightarrow> ResourceKind" where
  "detectInputKind input =
     (let trimmed = trimStart input in
      if startsWith trimmed ''<'' then K_html
      else if startsWith trimmed ''@'' \<or> str_includes trimmed ''url('' then K_css
      else K_js)"

definition getAttribute :: "element \<Rightarrow> string \<Rightarrow> string option" where
  "getAttribute el name = map_of (el_attrs el) name"

definition inferKindFromElement :: "element option \<Rightarrow> ResourceKind option" where
  "inferKindFromElement element =
     (case element of
        None \<Rightarrow> None
      | Some el \<Rightarrow>
          (let tagName = toLowerCase (el_tagName el) in
           if tagName = ''script'' then Some K_js
           else if tagName = ''iframe'' then Some K_html
           else if tagName = ''link'' then
             (let rel = toLowerCase (case getAttribute el ''rel'' of None \<Rightarrow> [] | Some v \<Rightarrow> v);
                  asValue = toLowerCase (case getAttribute el ''as'' of None \<Rightarrow> [] | Some v \<Rightarrow> v)
              in if str_includes rel ''stylesheet'' then Some K_css
                 else if str_includes rel ''preload'' \<or> str_includes rel ''prefetch'' then
                   (if asValue = ''style'' then Some K_css
                    else if asValue = ''script'' then Some K_js
                    else None)
                 else None)
           else None))"

definition shouldInterceptLinkRel :: "string \<Rightarrow> bool" where
  "shouldInterceptLinkRel rel =
     (let normalized = toLowerCase rel in
      str_includes normalized ''preload'' \<or> str_includes normalized ''prefetch''
      \<or> str_includes normalized ''stylesheet'' \<or> str_includes normalized ''icon'')"

section \<open>The state of a run\<close>

text \<open>
  A promise of \<^verbatim>\<open>fetchResourceContent\<close> or of \<^verbatim>\<open>loadResource\<close>: the identity of the promise
  object (the number of promises of the two functions created before it) and the value it
  settles to (\<open>None\<close> is \<^verbatim>\<open>null\<close>).
\<close>

datatype promise = Promise nat "ResourceContent option"

fun await :: "promise \<Rightarrow> ResourceContent option" where
  "await (Promise i v) = v"

text \<open>
  The variables of \<^verbatim>\<open>run\<close> that its closures share: \<^verbatim>\<open>requests\<close>, \<^verbatim>\<open>pending\<close>,
  \<^verbatim>\<open>processed\<close> (a \<^verbatim>\<open>Set\<close>: its members in insertion order) and \<^verbatim>\<open>resourceCache\<close>.  Three
  history variables record what the run did: the URLs \<^verbatim>\<open>fetch\<close> was called with, the number
  of promises created, and the items the drain loop took from the queue.
\<close>

record state =
  requests :: "RequestRecord list"
  pending :: "(string \<times> ResourceKind option) list"
  processed :: "string list"
  resourceCache :: "string \<rightharpoonup> promise"
  fetch_calls :: "string list"
  promise_count :: nat
  popped :: "(string \<times> ResourceKind option) list"

definition init_state :: state where
  "init_state =
     \<lparr>requests = [], pending = [], processed = [], resourceCache = Map.empty,
      fetch_calls = [], promise_count = 0, popped = []\<rparr>"

record LighterceptorOptions =
  settleTimeMs :: "nat option"
  recursion :: "bool option"

definition DEFAULT_SETTLE_MS :: nat where
  "DEFAULT_SETTLE_MS = 50"

definition settle_of :: "LighterceptorOptions \<Rightarrow> nat" where
  "settle_of opts = (case settleTimeMs opts of None \<Rightarrow> DEFAULT_SETTLE_MS | Some n \<Rightarrow> n)"

definition recursive_of :: "LighterceptorOptions \<Rightarrow> bool" where
  "recursive_of opts = (case recursion opts of None \<Rightarrow> False | Some b \<Rightarrow> b)"

record LighterceptorResult =
  res_title :: "string option"
  res_capturedAt :: string
  res_requests :: "RequestRecord list"

definition recordUrl :: "env \<Rightarrow> string \<Rightarrow> RequestSource \<Rightarrow> string option \<Rightarrow> state \<Rightarrow> state" where
  "recordUrl e url source baseUrl st =
     (case truthy (resolveUrl e baseUrl url) of
        None \<Rightarrow> st
      | Some resolved \<Rightarrow>
          st\<lparr>requests := requests st @
               [\<lparr>rr_url = resolved, rr_source = source,
                 rr_timestamp = env_date_now e (length (requests st))\<rparr>]\<rparr>)"

definition enqueue :: "bool \<Rightarrow> string \<Rightarrow> ResourceKind option \<Rightarrow> state \<Rightarrow> state" where
  "enqueue recursive url kind st =
     (if \<not> recursive \<or> isSkippableUrl url then st
      else if url \<in> set (processed st) then st
      else st\<lparr>processed := processed st @ [url], pending := pending st @ [(url, kind)]\<rparr>)"

text \<open>
  The analyzers reach the state only through the closures \<^verbatim>\<open>recordUrl\<close> and \<^verbatim>\<open>enqueue\<close>,
  and never read it.  Each analyzer is modelled by the calls of the two closures it makes,
  in order; \<open>run_calls\<close> performs them.
\<close>

datatype call =
    RecordUrl string RequestSource "string option"
  | Enqueue string "ResourceKind option"

fun exec_call :: "env \<Rightarrow> bool \<Rightarrow> call \<Rightarrow> state \<Rightarrow> state" where
  "exec_call e recursive (RecordUrl url source baseUrl) st = recordUrl e url source baseUrl st"
| "exec_call e recursive (Enqueue url kind) st = enqueue recursive url kind st"

definition run_calls :: "env \<Rightarrow> bool \<Rightarrow> call list \<Rightarrow> state \<Rightarrow> state" where
  "run_calls e recursive cs st = fold (exec_call e recursive) cs st"

section \<open>Analyzers\<close>

text \<open>
  The loops \<^verbatim>\<open>for (const url of urls) { const resolved = resolveUrl(baseUrl, url);
  if (!resolved) continue; ... }\<close>: the body's calls for every reference that resolves.
\<close>

definition for_resolved ::
  "env \<Rightarrow> string option \<Rightarrow> string list \<Rightarrow> (string \<Rightarrow> call list) \<Rightarrow> call list" where
  "for_resolved e baseUrl urls body =
     concat (map (\<lambda>url. case truthy (resolveUrl e baseUrl url) of
                           None \<Rightarrow> [] | Some resolved \<Rightarrow> body resolved) urls)"

definition recordCssUrls :: "env \<Rightarrow> string \<Rightarrow> string option \<Rightarrow> call list outcome" where
  "recordCssUrls e cssText baseUrl =
     and_then (extractCssDependencies cssText) (\<lambda>d.
       Returns
         (for_resolved e baseUrl (css_imports d)
            (\<lambda>resolved. [RecordUrl resolved S_css None, Enqueue resolved (Some K_css)])
          @ for_resolved e baseUrl (css_urls d)
            (\<lambda>resolved. [RecordUrl resolved S_css None])))"

text \<open>
  A member of a set of \<^verbatim>\<open>extractJsDependencies\<close> that is \<^verbatim>\<open>undefined\<close> makes \<^verbatim>\<open>resolveUrl\<close>
  return \<^verbatim>\<open>undefined\<close>, and the loop goes on to the next member.
\<close>

definition for_resolved_js ::
  "env \<Rightarrow> string option \<Rightarrow> string option list \<Rightarrow> (string \<Rightarrow> call list) \<Rightarrow> call list" where
  "for_resolved_js e baseUrl urls body =
     concat (map (\<lambda>u. case u of
                         None \<Rightarrow> []
                       | Some url \<Rightarrow>
                           (case truthy (resolveUrl e baseUrl url) of
                              None \<Rightarrow> [] | Some resolved \<Rightarrow> body resolved)) urls)"

definition analyzeJs :: "env \<Rightarrow> string \<Rightarrow> string option \<Rightarrow> call list outcome" where
  "analyzeJs e jsText baseUrl =
     and_then (extractJsDependencies jsText) (\<lambda>d.
       Returns
         (for_resolved_js e baseUrl (js_imports d)
            (\<lambda>resolved.
               [RecordUrl resolved S_resource None,
                Enqueue resolved
                  (case inferResourceKindFromUrl resolved of
                     Some k \<Rightarrow> Some k | None \<Rightarrow> Some K_js)])
          @ for_resolved_js e baseUrl (js_importScripts d)
            (\<lambda>resolved. [RecordUrl resolved S_resource None, Enqueue resolved (Some K_js)])
          @ for_resolved_js e baseUrl (js_fetches d)
            (\<lambda>resolved.
               [RecordUrl resolved S_fetch None,
                Enqueue resolved (inferResourceKindFromUrl resolved)])
          @ for_resolved_js e baseUrl (js_xhrs d)
            (\<lambda>resolved.
               [RecordUrl resolved S_xhr None,
                Enqueue resolved (inferResourceKindFromUrl resolved)])))"

text \<open>The interception callback that \<^verbatim>\<open>analyzeHtml\<close> hands to the rendering environment.\<close>

definition interceptor :: "env \<Rightarrow> bool \<Rightarrow> intercept \<Rightarrow> call list" where
  "interceptor e recursive i =
     (case truthy (resolveUrl e (ic_referrer i) (ic_url i)) of
        None \<Rightarrow> []
      | Some resolved \<Rightarrow>
          (let source = (case ic_source i of None \<Rightarrow> S_unknown | Some s \<Rightarrow> s) in
           RecordUrl resolved source None #
           (if recursive then
              (if source = S_fetch \<or> source = S_xhr
               then [Enqueue resolved (inferResourceKindFromUrl resolved)]
               else if source = S_resource
               then (case inferKindFromElement (ic_element i) of
                       None \<Rightarrow> [] | Some kind \<Rightarrow> [Enqueue resolved (Some kind)])
               else [])
            else [])))"

text \<open>
  \<^verbatim>\<open>querySelectorAll\<close> with the selectors of the harvest: a tag name, an attribute that is
  present, or both.
\<close>

definition has_tag :: "string \<Rightarrow> element \<Rightarrow> bool" where
  "has_tag t el = (toLowerCase (el_tagName el) = t)"

definition has_attr :: "string \<Rightarrow> element \<Rightarrow> bool" where
  "has_attr a el = (getAttribute el a \<noteq> None)"

text \<open>The loops that record one attribute of every selected element, resolved against the base.\<close>

definition record_attr ::
  "string option \<Rightarrow> string \<Rightarrow> element \<Rightarrow> call list" where
  "record_attr baseUrl a el =
     (case truthy (getAttribute el a) of
        None \<Rightarrow> []
      | Some v \<Rightarrow> [RecordUrl v S_resource baseUrl])"

definition record_srcset ::
  "RequestSource \<Rightarrow> string option \<Rightarrow> string \<Rightarrow> element \<Rightarrow> call list" where
  "record_srcset source baseUrl a el =
     (case truthy (getAttribute el a) of
        None \<Rightarrow> []
      | Some v \<Rightarrow> map (\<lambda>url. RecordUrl url source baseUrl) (parseSrcsetUrls v))"

text \<open>The body of the loop over \<^verbatim>\<open>link[rel]\<close>.\<close>

definition link_calls :: "env \<Rightarrow> string option \<Rightarrow> element \<Rightarrow> call list" where
  "link_calls e baseUrl link =
     (if \<not> el_html link then []
      else
        (let rel = (case getAttribute link ''rel'' of None \<Rightarrow> [] | Some v \<Rightarrow> v) in
         (if shouldInterceptLinkRel rel then
            (let href = (case getAttribute link ''href'' of None \<Rightarrow> el_href link | Some v \<Rightarrow> v) in
             if href \<noteq> [] then
               (let resolvedHref = (case resolveUrl e baseUrl href of None \<Rightarrow> href | Some r \<Rightarrow> r) in
                RecordUrl resolvedHref S_resource None #
                (if str_includes (toLowerCase rel) ''stylesheet''
                 then [Enqueue resolvedHref (Some K_css)]
                 else if str_includes (toLowerCase rel) ''preload''
                 then (case inferResourceKindFromUrl resolvedHref of
                         None \<Rightarrow> [] | Some kind \<Rightarrow> [Enqueue resolvedHref (Some kind)])
                 else []))
             else [])
          else [])
         @ (if str_includes (toLowerCase rel) ''preload''
            then record_srcset S_resource baseUrl ''imagesrcset'' link
            else [])))"

text \<open>A loop whose body may throw: the calls made up to there are followed by the throw.\<close>

fun collect :: "('a \<Rightarrow> call list outcome) \<Rightarrow> 'a list \<Rightarrow> call list outcome" where
  "collect f [] = Returns []"
| "collect f (x # xs) =
     and_then (f x) (\<lambda>cs. and_then (collect f xs) (\<lambda>ds. Returns (cs @ ds)))"

text \<open>Loops one after the other.\<close>

definition in_order :: "call list outcome list \<Rightarrow> call list outcome" where
  "in_order loops = collect (\<lambda>loop. loop) loops"

text \<open>The harvest of \<^verbatim>\<open>analyzeHtml\<close>: its \<^verbatim>\<open>querySelectorAll\<close> loops, in the order of the source.\<close>

definition harvest :: "env \<Rightarrow> string option \<Rightarrow> element list \<Rightarrow> call list outcome" where
  "harvest e baseUrl els =
     in_order
       [Returns (concat (map (\<lambda>img. if el_html img \<and> el_src img \<noteq> []
                                   then [RecordUrl (el_src img) S_img None] else [])
                          (filter (has_tag ''img'') els))),
        Returns (concat (map (\<lambda>img. if \<not> el_html img then []
                                   else record_srcset S_img baseUrl ''srcset'' img)
                          (filter (\<lambda>el. has_tag ''img'' el \<and> has_attr ''srcset'' el) els))),
        Returns (concat (map (record_attr baseUrl ''src'')
                          (filter (\<lambda>el. has_tag ''source'' el \<and> has_attr ''src'' el) els))),
        Returns (concat (map (record_srcset S_resource baseUrl ''srcset'')
                          (filter (\<lambda>el. has_tag ''source'' el \<and> has_attr ''srcset'' el) els))),
        Returns (concat (map (\<lambda>script. if el_html script \<and> el_src script \<noteq> []
                                      then [RecordUrl (el_src script) S_resource None,
                                            Enqueue (el_src script) (Some K_js)]
                                      else [])
                          (filter (\<lambda>el. has_tag ''script'' el \<and> has_attr ''src'' el) els))),
        Returns (concat (map (\<lambda>iframe. if el_html iframe \<and> el_src iframe \<noteq> []
                                      then [RecordUrl (el_src iframe) S_resource None,
                                            Enqueue (el_src iframe) (Some K_html)]
                                      else [])
                          (filter (\<lambda>el. has_tag ''iframe'' el \<and> has_attr ''src'' el) els))),
        Returns (concat (map (record_attr baseUrl ''src'')
                          (filter (\<lambda>el. (has_tag ''video'' el \<or> has_tag ''audio'' el)
                                         \<and> has_attr ''src'' el) els))),
        Returns (concat (map (record_attr baseUrl ''poster'')
                          (filter (\<lambda>el. has_tag ''video'' el \<and> has_attr ''poster'' el) els))),
        Returns (concat (map (record_attr baseUrl ''src'')
                          (filter (\<lambda>el. has_tag ''track'' el \<and> has_attr ''src'' el) els))),
        Returns (concat (map (record_attr baseUrl ''src'')
                          (filter (\<lambda>el. has_tag ''embed'' el \<and> has_attr ''src'' el) els))),
        Returns (concat (map (record_attr baseUrl ''data'')
                          (filter (\<lambda>el. has_tag ''object'' el \<and> has_attr ''data'' el) els))),
        collect (\<lambda>el. case truthy (getAttribute el ''style'') of
                        None \<Rightarrow> Returns []
                      | Some cssText \<Rightarrow> recordCssUrls e cssText baseUrl)
          (filter (has_attr ''style'') els),
        collect (\<lambda>el. if el_textContent el \<noteq> []
                      then recordCssUrls e (el_textContent el) baseUrl else Returns [])
          (filter (has_tag ''style'') els),
        Returns (concat (map (link_calls e baseUrl)
                          (filter (\<lambda>el. has_tag ''link'' el \<and> has_attr ''rel'' el) els)))]"

text \<open>
  \<^verbatim>\<open>analyzeHtml\<close>: the calls of the callback while the environment parses, the harvest, the
  calls of the callback during the settle interval; and the title, when it is asked for.
\<close>

definition analyzeHtml ::
  "env \<Rightarrow> LighterceptorOptions \<Rightarrow> string \<Rightarrow> string option \<Rightarrow> bool
     \<Rightarrow> (call list \<times> string option) outcome" where
  "analyzeHtml e opts htmlText baseUrl captureTitle =
     (case env_jsdom e htmlText baseUrl (settle_of opts) of
        None \<Rightarrow> Throws
      | Some d \<Rightarrow>
          and_then (harvest e baseUrl (dom_elements d)) (\<lambda>hs.
            Returns
              (concat (map (interceptor e (recursive_of opts)) (dom_parse_intercepts d))
               @ hs
               @ concat (map (interceptor e (recursive_of opts)) (dom_settle_intercepts d)),
               if captureTitle then truthy (Some (dom_title d)) else None)))"

section \<open>Resource cache\<close>

definition settled :: "env \<Rightarrow> string \<Rightarrow> ResourceContent option" where
  "settled e url =
     (case env_fetch e url of
        FetchRejects \<Rightarrow> None
      | FetchResponse ok body \<Rightarrow>
          if \<not> ok then None
          else (case body of
                  None \<Rightarrow> None
                | Some (t, ct) \<Rightarrow> Some \<lparr>rc_text = t, rc_contentType = ct\<rparr>))"

text \<open>
  \<^verbatim>\<open>fetchResourceContent\<close>: a new promise.  It calls \<^verbatim>\<open>fetch\<close> before its first \<^verbatim>\<open>await\<close>,
  unless \<^verbatim>\<open>fetch\<close> is not a function.
\<close>

definition fetchResourceContent :: "env \<Rightarrow> string \<Rightarrow> state \<Rightarrow> promise \<times> state" where
  "fetchResourceContent e url st =
     (if \<not> env_fetch_defined e
      then (Promise (promise_count st) None, st\<lparr>promise_count := Suc (promise_count st)\<rparr>)
      else (Promise (promise_count st) (settled e url),
            st\<lparr>promise_count := Suc (promise_count st),
               fetch_calls := fetch_calls st @ [url]\<rparr>))"

text \<open>
  \<^verbatim>\<open>loadResource\<close> is an \<^verbatim>\<open>async\<close> function: every call returns a promise of its own, created
  when the call starts and resolved with what the body returns.  The body returns a promise,
  the one it finds in the cache or the one of \<^verbatim>\<open>fetchResourceContent\<close> that it has just put
  there; so the promise of the call is another object, and it settles as that promise does.
\<close>

definition loadResource :: "env \<Rightarrow> string \<Rightarrow> state \<Rightarrow> promise \<times> state" where
  "loadResource e url st =
     (let own = promise_count st; st0 = st\<lparr>promise_count := Suc own\<rparr> in
      case resourceCache st0 url of
        Some existing \<Rightarrow> (Promise own (await existing), st0)
      | None \<Rightarrow>
          (let (loader, st1) = fetchResourceContent e url st0
           in (Promise own (await loader),
               st1\<lparr>resourceCache := (resourceCache st1)(url \<mapsto> loader)\<rparr>)))"

section \<open>Discovery queue and orchestrator\<close>

text \<open>
  The analysis of a retrieved body in the drain loop: the kind is the hint of the item or,
  without a hint, what \<^verbatim>\<open>detectResourceKind\<close> finds; an unknown kind makes no call.
\<close>

definition analyze_item ::
  "env \<Rightarrow> LighterceptorOptions \<Rightarrow> string \<times> ResourceKind option \<Rightarrow> ResourceContent
     \<Rightarrow> call list outcome" where
  "analyze_item e opts item result =
     (case (case snd item of
              Some k \<Rightarrow> Some k
            | None \<Rightarrow> detectResourceKind (fst item) (rc_contentType result) (rc_text result)) of
        None \<Rightarrow> Returns []
      | Some K_html \<Rightarrow>
          and_then (analyzeHtml e opts (rc_text result) (Some (fst item)) False)
            (\<lambda>(cs, t). Returns cs)
      | Some K_css \<Rightarrow> recordCssUrls e (rc_text result) (Some (fst item))
      | Some K_js \<Rightarrow> analyzeJs e (rc_text result) (Some (fst item)))"

text \<open>The body of the drain loop, after \<^verbatim>\<open>pending.shift()\<close>.\<close>

definition process_item ::
  "env \<Rightarrow> LighterceptorOptions \<Rightarrow> string \<times> ResourceKind option \<Rightarrow> state \<Rightarrow> state outcome" where
  "process_item e opts item st =
     (let (p, st1) = loadResource e (fst item) st in
      case await p of
        None \<Rightarrow> Returns st1
      | Some result \<Rightarrow>
          and_then (analyze_item e opts item result)
            (\<lambda>cs. Returns (run_calls e (recursive_of opts) cs st1)))"

text \<open>
  \<^verbatim>\<open>processPending\<close>: the drain loop.  \<open>None\<close>: the loop never ends.
\<close>

partial_function (option) processPending ::
  "env \<Rightarrow> LighterceptorOptions \<Rightarrow> state \<Rightarrow> state outcome option" where
  "processPending e opts st =
     (case pending st of
        [] \<Rightarrow> Some (Returns st)
      | next_item # queue \<Rightarrow>
          (case process_item e opts next_item
                  (st\<lparr>pending := queue, popped := popped st @ [next_item]\<rparr>) of
             Returns st' \<Rightarrow> processPending e opts st'
           | Throws \<Rightarrow> Some Throws
           | Spins \<Rightarrow> None))"

text \<open>The first analysis pass of \<^verbatim>\<open>run\<close>, on the input.\<close>

definition analyze_input ::
  "env \<Rightarrow> LighterceptorOptions \<Rightarrow> string \<Rightarrow> (call list \<times> string option) outcome" where
  "analyze_input e opts input =
     (case detectInputKind input of
        K_html \<Rightarrow> analyzeHtml e opts input None True
      | K_css \<Rightarrow> and_then (recordCssUrls e input None) (\<lambda>cs. Returns (cs, None))
      | K_js \<Rightarrow> and_then (analyzeJs e input None) (\<lambda>cs. Returns (cs, None)))"

definition run :: "env \<Rightarrow> LighterceptorOptions \<Rightarrow> string \<Rightarrow> LighterceptorResult outcome option" where
  "run e opts input =
     (case analyze_input e opts input of
        Returns (cs, title) \<Rightarrow>
          (case processPending e opts (run_calls e (recursive_of opts) cs init_state) of
             None \<Rightarrow> None
           | Some (Returns st) \<Rightarrow>
               Some (Returns \<lparr>res_title = title, res_capturedAt = env_date_iso e,
                              res_requests = requests st\<rparr>)
           | Some Throws \<Rightarrow> Some Throws
           | Some Spins \<Rightarrow> None)
      | Throws \<Rightarrow> Some Throws
      | Spins \<Rightarrow> None)"

section \<open>Notions used in the statements\<close>

text \<open>The least number of code units a match of a pattern takes.\<close>

fun min_len :: "regex \<Rightarrow> nat" where
  "min_len Eps = 0"
| "min_len (Lit c) = 1"
| "min_len (Cls p) = 1"
| "min_len (Seq a b) = min_len a + min_len b"
| "min_len (Alt a b) = min (min_len a) (min_len b)"
| "min_len (Opt a) = 0"
| "min_len (Rep greedy p) = 0"
| "min_len (Grp g r) = min_len r"
| "min_len (Backref g) = 0"
| "min_len WordB = 0"

text \<open>A group that takes part in every match of a pattern.\<close>

fun sure_group :: "nat \<Rightarrow> regex \<Rightarrow> bool" where
  "sure_group g (Grp k r) = (k = g \<or> sure_group g r)"
| "sure_group g (Seq a b) = (sure_group g a \<or> sure_group g b)"
| "sure_group g (Alt a b) = (sure_group g a \<and> sure_group g b)"
| "sure_group g r = False"

text \<open>The base that \<^verbatim>\<open>resolveUrl\<close> resolves against: an empty base counts as none.\<close>

definition effective_base :: "string option \<Rightarrow> string option" where
  "effective_base baseUrl = (if baseUrl = Some [] then None else baseUrl)"

text \<open>A toy URL constructor, a retrieval primitive and an environment for examples.\<close>

definition example_new_URL :: "string \<Rightarrow> string option \<Rightarrow> string option" where
  "example_new_URL url base =
     (if startsWith url ''https://'' then Some url
      else (case base of
              None \<Rightarrow> None
            | Some b \<Rightarrow>
                if startsWith b ''https://''
                then Some (rev (dropWhile (\<lambda>c. c \<noteq> CHR ''/'') (rev b)) @ url)
                else None))"

definition example_fetch :: "string \<Rightarrow> fetch_result" where
  "example_fetch url =
     (if url = ''https://example.com/a.css''
      then FetchResponse True
             (Some (''@import \"b.css\"; .hero { background: url(bg.png) }'', Some ''text/css''))
      else if url = ''https://example.com/b.css''
      then FetchResponse True (Some (''@import \"a.css\";'', None))
      else if url = ''https://example.com/gone.css''
      then FetchResponse False None
      else FetchRejects)"

definition example_env :: env where
  "example_env =
     \<lparr>env_new_URL = example_new_URL, env_fetch_defined = True, env_fetch = example_fetch,
      env_jsdom = (\<lambda>html url settle. None), env_date_now = int,
      env_date_iso = ''2026-01-01T00:00:00.000Z''\<rparr>"

text \<open>
  A sequence of calls of \<^verbatim>\<open>loadResource\<close>: for each call the promise it returns, and the
  promise that the cache holds for its URL when it returns.
\<close>

fun load_all :: "env \<Rightarrow> string list \<Rightarrow> state \<Rightarrow> (promise \<times> promise option) list \<times> state" where
  "load_all e [] st = ([], st)"
| "load_all e (u # us) st =
     (let (p, st1) = loadResource e u st; (ps, st2) = load_all e us st1
      in ((p, resourceCache st1 u) # ps, st2))"

text \<open>What the promise of \<^verbatim>\<open>fetchResourceContent\<close> for a URL settles to.\<close>

definition content_of :: "env \<Rightarrow> string \<Rightarrow> ResourceContent option" where
  "content_of e url = (if env_fetch_defined e then settled e url else None)"

fun promise_id :: "promise \<Rightarrow> nat" where
  "promise_id (Promise i v) = i"

text \<open>
  The cache and the history of \<^verbatim>\<open>fetch\<close> calls fit: no URL was fetched twice, every fetched
  URL has its promise in the cache, a cached promise settles to the content of its URL, and
  two URLs never share a promise.
\<close>

definition cache_inv :: "env \<Rightarrow> state \<Rightarrow> bool" where
  "cache_inv e st =
     (distinct (fetch_calls st) \<and> set (fetch_calls st) \<subseteq> dom (resourceCache st)
      \<and> (\<forall>u p. resourceCache st u = Some p
             \<longrightarrow> await p = content_of e u \<and> promise_id p < promise_count st)
      \<and> (\<forall>u u' p p'. resourceCache st u = Some p \<longrightarrow> resourceCache st u' = Some p'
             \<longrightarrow> promise_id p = promise_id p' \<longrightarrow> u = u'))"

definition example_urls :: "string list" where
  "example_urls = [''https://example.com/a.css'', ''https://example.com/gone.css'',
                   ''https://example.com/a.css'']"

definition example_opts :: LighterceptorOptions where
  "example_opts = \<lparr>settleTimeMs = None, recursion = Some True\<rparr>"

text \<open>A record of the request log without its timestamp.\<close>

definition untimed :: "RequestRecord \<Rightarrow> string \<times> RequestSource" where
  "untimed r = (rr_url r, rr_source r)"

text \<open>No URL of a non-fetchable scheme is, or was, in the queue or in the processed set.\<close>

definition no_skippable :: "state \<Rightarrow> bool" where
  "no_skippable st =
     (\<forall>u \<in> set (processed st) \<union> fst ` set (pending st) \<union> fst ` set (popped st).
        \<not> isSkippableUrl u)"

definition example_data_url :: string where
  "example_data_url = ''DATA:text/css,a''"

definition example_skippable_css :: string where
  "example_skippable_css = ''@import \"DATA:text/css,a\";''"

definition example_skippable_js :: string where
  "example_skippable_js = ''fetch(\"DATA:text/css,a\")''"

definition example_skippable_img :: element where
  "example_skippable_img =
     \<lparr>el_tagName = ''IMG'', el_html = True, el_attrs = [(''src'', example_data_url)],
      el_src = example_data_url, el_href = [], el_textContent = []\<rparr>"

definition example_skippable_intercept :: intercept where
  "example_skippable_intercept =
     \<lparr>ic_url = example_data_url, ic_referrer = None, ic_source = Some S_fetch,
      ic_element = None\<rparr>"

text \<open>The result of a run without its timestamps: the title and the untimed request log.\<close>

definition untimed_result ::
  "LighterceptorResult \<Rightarrow> string option \<times> (string \<times> RequestSource) list" where
  "untimed_result res = (res_title res, map untimed (res_requests res))"

definition example_css_input :: string where
  "example_css_input = ''@import url(https://example.com/x.css);''"

definition plain_opts :: LighterceptorOptions where
  "plain_opts = \<lparr>settleTimeMs = None, recursion = None\<rparr>"

text \<open>
  A markup whose script requests an image at a URL that holds the time of the clock, and
  what the rendering environment does with it when the clock reads \<open>now\<close>: the script runs
  while the markup is parsed, the patched \<^verbatim>\<open>src\<close> setter of the new image calls the callback
  with the URL, the image and the URL of the document, and the document holds the script
  element only.
\<close>

definition example_script_input :: string where
  "example_script_input =
     ''<script>new Image().src = \"https://example.com/t?\" + Date.now()</script>''"

definition example_render :: "string \<Rightarrow> string \<Rightarrow> string option \<Rightarrow> nat \<Rightarrow> dom option" where
  "example_render now html url settle =
     (if html = example_script_input
      then Some \<lparr>dom_parse_intercepts =
                   [\<lparr>ic_url = ''https://example.com/t?'' @ now,
                     ic_referrer = Some ''about:blank'', ic_source = None,
                     ic_element =
                       Some \<lparr>el_tagName = ''IMG'', el_html = True,
                             el_attrs = [(''src'', ''https://example.com/t?'' @ now)],
                             el_src = ''https://example.com/t?'' @ now, el_href = [],
                             el_textContent = []\<rparr>\<rparr>],
                 dom_elements =
                   [\<lparr>el_tagName = ''SCRIPT'', el_html = True, el_attrs = [], el_src = [],
                     el_href = [],
                     el_textContent =
                       ''new Image().src = \"https://example.com/t?\" + Date.now()''\<rparr>],
                 dom_settle_intercepts = [], dom_title = []\<rparr>
      else None)"

definition example_api :: string where
  "example_api = ''https://example.com/api''"

text \<open>
  The queue and the processed set fit: the URLs of the items taken from the queue, followed
  by those of the items still in it, are the processed set in insertion order, and no URL
  is in it twice.
\<close>

definition queue_inv :: "state \<Rightarrow> bool" where
  "queue_inv st = (map fst (popped st @ pending st) = processed st \<and> distinct (processed st))"

text \<open>
  The closure calls that the drain loop makes for a queue item: none when the content of its
  URL is absent, the analysis of the content otherwise.
\<close>

definition expansion ::
  "env \<Rightarrow> LighterceptorOptions \<Rightarrow> string \<times> ResourceKind option \<Rightarrow> call list outcome" where
  "expansion e opts item =
     (case content_of e (fst item) of
        None \<Rightarrow> Returns []
      | Some result \<Rightarrow> analyze_item e opts item result)"




text \<open>What is left to do: the items in the queue and the URLs of the set not yet processed.\<close>

definition drain_measure :: "string set \<Rightarrow> state \<Rightarrow> nat" where
  "drain_measure U st = length (pending st) + card (U - set (processed st))"



text \<open>The first rule of a chain that has an opinion.\<close>

fun first_match :: "'a option list \<Rightarrow> 'a option" where
  "first_match [] = None"
| "first_match (Some v # rs) = Some v"
| "first_match (None # rs) = first_match rs"

text \<open>Rule 1 of the classifier: the content type, lower-cased, holds one of three texts.\<close>

definition by_content_type :: "string option \<Rightarrow> ResourceKind option" where
  "by_content_type contentType =
     (case contentType of
        None \<Rightarrow> None
      | Some c \<Rightarrow>
          if str_includes (toLowerCase c) ''text/html'' then Some K_html
          else if str_includes (toLowerCase c) ''text/css'' then Some K_css
          else if str_includes (toLowerCase c) ''javascript'' then Some K_js
          else None)"

text \<open>The kinds of the known file extensions.\<close>

definition extension_kind :: "string \<Rightarrow> ResourceKind option" where
  "extension_kind ext =
     (if ext \<in> {''html'', ''htm''} then Some K_html
      else if ext = ''css'' then Some K_css
      else if ext \<in> {''js'', ''mjs'', ''cjs''} then Some K_js
      else None)"

text \<open>Rule 3 of the classifier: the shape of the body, after its leading white space.\<close>

definition by_sniffing :: "string \<Rightarrow> ResourceKind option" where
  "by_sniffing body =
     (let t = trimStart body in
      if startsWith t ''<'' then Some K_html
      else if startsWith t ''@'' \<or> str_includes t ''url('' then Some K_css
      else if looksLikeJavaScript t then Some K_js
      else None)"

definition example_js_url :: string where
  "example_js_url = ''https://example.com/a.js?x=1#f''"

definition example_plain_url :: string where
  "example_plain_url = ''https://example.com/data''"

text \<open>
  The matches of a pattern in a text, in the order of the text: each search starts where the
  match before it ended.
\<close>

function scan_from :: "bool \<Rightarrow> regex \<Rightarrow> char option \<Rightarrow> string \<Rightarrow> (nat \<Rightarrow> string option) list" where
  "scan_from ic r p s =
     (case search ic r p s of
        None \<Rightarrow> []
      | Some st \<Rightarrow>
          if length (m_rest st) < length s
          then m_caps st # scan_from ic r (m_prev st) (m_rest st)
          else [m_caps st])"
  by pat_completeness auto
termination
  by (relation "measure (\<lambda>(ic, r, p, s). length s)") auto

declare scan_from.simps [simp del]

text \<open>A loop body run over a list of matches, as long as it returns.\<close>

fun fold_outcome :: "('m \<Rightarrow> 'a \<Rightarrow> 'a outcome) \<Rightarrow> 'm list \<Rightarrow> 'a \<Rightarrow> 'a outcome" where
  "fold_outcome body [] acc = Returns acc"
| "fold_outcome body (m # ms) acc = and_then (body m acc) (fold_outcome body ms)"

text \<open>The members of a list added to an empty \<^verbatim>\<open>Set\<close> one by one.\<close>

definition dedup :: "'a list \<Rightarrow> 'a list" where
  "dedup xs = fold set_add xs []"

text \<open>
  What the CSS extractor keeps of a list of matches: the second group of each, trimmed, unless
  it is empty or all white space.
\<close>

definition kept :: "(nat \<Rightarrow> string option) list \<Rightarrow> string list" where
  "kept ms =
     concat (map (\<lambda>m. case m 2 of
                         None \<Rightarrow> []
                       | Some u \<Rightarrow> if list_all is_ws u then [] else [trim u]) ms)"

text \<open>The first group of each match.\<close>

definition group1 :: "(nat \<Rightarrow> string option) list \<Rightarrow> string option list" where
  "group1 ms = map (\<lambda>m. m 1) ms"

definition example_js_input :: string where
  "example_js_input = ''fetch(\"/a\"); fetch(\"/b\"); fetch(\"/a\");''"

definition example_css_text :: string where
  "example_css_text = ''@import \"b.css\"; .x { background: URL( 'c.png' ) } .y { background: url(   ) }''"




section \<open>The pattern matcher\<close>

lemma rest_advance: "m_rest (advance n st) = drop n (m_rest st)"
  by (simp add: advance_def)

lemma caps_advance: "m_caps (advance n st) = m_caps st"
  by (simp add: advance_def)

lemma matches_progress:
  "s' \<in> set (matches ic r st) \<Longrightarrow> length (m_rest s') + min_len r \<le> length (m_rest st)"
proof (induction r arbitrary: st s')
  case (Seq a b)
  then obtain s1 where "s1 \<in> set (matches ic a st)" "s' \<in> set (matches ic b s1)"
    by auto
  with Seq.IH[of s1 st] Seq.IH(2)[of s' s1] show ?case by simp
next
  case (Rep greedy p)
  then show ?case by (auto simp: rest_advance Let_def split: if_splits)
next
  case (Backref g)
  then show ?case by (auto simp: rest_advance split: option.splits if_splits)
next
  case (Alt a b)
  then show ?case by (fastforce simp: min_def)
next
  case (Grp g r)
  then show ?case by fastforce
next
  case (Lit c)
  then show ?case by (cases "m_rest st") (auto simp: rest_advance split: if_splits)
next
  case (Cls p)
  then show ?case by (cases "m_rest st") (auto simp: rest_advance split: if_splits)
qed (auto simp: rest_advance split: if_splits)

lemma matches_caps:
  "s' \<in> set (matches ic r st) \<Longrightarrow> sure_group g r \<or> m_caps st g \<noteq> None \<Longrightarrow> m_caps s' g \<noteq> None"
proof (induction r arbitrary: st s')
  case (Seq a b)
  then obtain s1 where s1: "s1 \<in> set (matches ic a st)" "s' \<in> set (matches ic b s1)"
    by auto
  show ?case
  proof (cases "sure_group g a \<or> m_caps st g \<noteq> None")
    case True
    with Seq.IH(1)[OF s1(1)] have "m_caps s1 g \<noteq> None" by blast
    with Seq.IH(2)[OF s1(2)] show ?thesis by blast
  next
    case False
    with Seq.prems(2) have "sure_group g b" by simp
    with Seq.IH(2)[OF s1(2)] show ?thesis by blast
  qed
next
  case (Alt a b)
  then show ?case by auto
next
  case (Grp k r)
  then show ?case by (cases "k = g") auto
next
  case (Rep greedy p)
  then show ?case by (auto simp: caps_advance Let_def split: if_splits)
next
  case (Backref k)
  then show ?case by (auto simp: caps_advance split: option.splits if_splits)
next
  case (Opt a)
  then show ?case by auto
qed (auto simp: caps_advance split: list.splits if_splits)

lemma search_Some:
  "search ic r p s = Some st \<Longrightarrow>
     length (m_rest st) + min_len r \<le> length s \<and> (sure_group g r \<longrightarrow> m_caps st g \<noteq> None)"
proof (induction s arbitrary: p)
  case Nil
  then obtain ms where "matches ic r \<lparr>m_prev = p, m_rest = [], m_caps = (\<lambda>_. None)\<rparr> = st # ms"
    by (auto split: list.splits)
  then have "st \<in> set (matches ic r \<lparr>m_prev = p, m_rest = [], m_caps = (\<lambda>_. None)\<rparr>)" by simp
  from matches_progress[OF this] matches_caps[OF this, of g] show ?case by auto
next
  case (Cons x xs)
  show ?case
  proof (cases "matches ic r \<lparr>m_prev = p, m_rest = x # xs, m_caps = (\<lambda>_. None)\<rparr>")
    case Nil
    with Cons.prems have "search ic r (Some x) xs = Some st" by simp
    from Cons.IH[OF this] show ?thesis by auto
  next
    case (Cons a as)
    with Cons.prems have "a = st" by simp
    with Cons have "st \<in> set (matches ic r \<lparr>m_prev = p, m_rest = x # xs, m_caps = (\<lambda>_. None)\<rparr>)"
      by simp
    from matches_progress[OF this] matches_caps[OF this, of g] show ?thesis by auto
  qed
qed

text \<open>
  The scan loop of a pattern whose matches are never empty ends, and keeps what its body
  keeps.
\<close>

lemma while_exec_rule:
  assumes len: "0 < min_len r"
    and body: "\<And>m acc. (\<forall>g. sure_group g r \<longrightarrow> m g \<noteq> None) \<Longrightarrow> I acc
                 \<Longrightarrow> \<exists>acc'. body m acc = Returns acc' \<and> I acc'"
    and init: "I acc"
  shows "\<exists>a. while_exec ic r body acc p s = Returns a \<and> I a"
  using init
proof (induction "length s" arbitrary: s p acc rule: less_induct)
  case less
  show ?case
  proof (cases "search ic r p s")
    case None
    with less.prems show ?thesis by (simp add: while_exec.simps[of ic r body acc p s])
  next
    case (Some st)
    have caps: "\<forall>g. sure_group g r \<longrightarrow> m_caps st g \<noteq> None"
      using search_Some[OF Some] by blast
    have "length (m_rest st) + min_len r \<le> length s"
      using search_Some[OF Some, of 0] by blast
    with len have shorter: "length (m_rest st) < length s" by linarith
    from body[OF caps less.prems] obtain acc'
      where acc': "body (m_caps st) acc = Returns acc'" "I acc'"
      by blast
    from less.hyps[OF shorter acc'(2), of "m_prev st"] Some acc' shorter show ?thesis
      by (simp add: while_exec.simps[of ic r body acc p s])
  qed
qed

lemma while_exec_returns:
  assumes "0 < min_len r" and "sure_group g r"
    and "\<And>m acc. m g \<noteq> None \<Longrightarrow> \<exists>acc'. body m acc = Returns acc'"
  shows "\<exists>a. while_exec ic r body acc p s = Returns a"
proof -
  have "\<exists>a. while_exec ic r body acc p s = Returns a \<and> True"
    using assms by (intro while_exec_rule) auto
  then show ?thesis by simp
qed

lemma min_len_lit: "min_len (lit s) = length s"
  by (induction s) (auto simp: lit_def seqs_def)

lemma min_len_seqs: "min_len (seqs rs) = sum_list (map min_len rs)"
  by (induction rs) (auto simp: seqs_def)

lemma sure_group_seqs: "sure_group g (seqs rs) = (\<exists>r \<in> set rs. sure_group g r)"
  by (induction rs) (auto simp: seqs_def)

section \<open>URL resolver: absent only for an empty reference\<close>

lemma resolveUrl_None_iff: "(resolveUrl e baseUrl url = None) = (url = [])"
  by (simp add: resolveUrl_def split: option.splits)

text \<open>
  C5.  \<^verbatim>\<open>resolveUrl\<close> returns absent exactly when the reference is empty.  Otherwise, when
  the URL constructor throws (on the reference against the base when there is one, on the
  reference alone when there is none), the result is the reference itself, unchanged; when
  the constructor succeeds, the result is what it serialises to.  The function has no other
  outcome: it never throws.
\<close>

theorem resolveUrl_fallback:
  "(resolveUrl e baseUrl url = None) = (url = [])
   \<and> (url \<noteq> [] \<and> env_new_URL e url (effective_base baseUrl) = None
        \<longrightarrow> resolveUrl e baseUrl url = Some url)
   \<and> (\<forall>u. url \<noteq> [] \<and> env_new_URL e url (effective_base baseUrl) = Some u
        \<longrightarrow> resolveUrl e baseUrl url = Some u)"
  by (auto simp: resolveUrl_def effective_base_def split: option.splits)

theorem resolveUrl_fallback_witness:
  "resolveUrl example_env (Some ''ftp://example.com/'') ''%%'' = Some ''%%''
   \<and> resolveUrl example_env None ''a.css'' = Some ''a.css''
   \<and> resolveUrl example_env (Some ''https://example.com/x/'') ''a.css''
       = Some ''https://example.com/x/a.css''
   \<and> resolveUrl example_env (Some ''https://example.com/'') [] = None"
proof -
  have 1: "env_new_URL example_env ''%%'' (effective_base (Some ''ftp://example.com/'')) = None"
    by (simp add: example_env_def example_new_URL_def effective_base_def startsWith_def)
  have 2: "env_new_URL example_env ''a.css'' (effective_base None) = None"
    by (simp add: example_env_def example_new_URL_def effective_base_def startsWith_def)
  have 3: "env_new_URL example_env ''a.css'' (effective_base (Some ''https://example.com/x/''))
             = Some ''https://example.com/x/a.css''"
    by (simp add: example_env_def example_new_URL_def effective_base_def startsWith_def)
  show ?thesis
    using resolveUrl_fallback[of example_env "Some ''ftp://example.com/''" "''%%''"]
      resolveUrl_fallback[of example_env None "''a.css''"]
      resolveUrl_fallback[of example_env "Some ''https://example.com/x/''" "''a.css''"]
      resolveUrl_fallback[of example_env "Some ''https://example.com/''" "[]"]
      1 2 3
    by simp
qed

section \<open>State changes of the closures\<close>

lemma recordUrl_fields [simp]:
  "pending (recordUrl e u s b st) = pending st"
  "processed (recordUrl e u s b st) = processed st"
  "resourceCache (recordUrl e u s b st) = resourceCache st"
  "fetch_calls (recordUrl e u s b st) = fetch_calls st"
  "promise_count (recordUrl e u s b st) = promise_count st"
  "popped (recordUrl e u s b st) = popped st"
  by (simp_all add: recordUrl_def split: option.splits)

lemma enqueue_fields [simp]:
  "requests (enqueue r u k st) = requests st"
  "resourceCache (enqueue r u k st) = resourceCache st"
  "fetch_calls (enqueue r u k st) = fetch_calls st"
  "promise_count (enqueue r u k st) = promise_count st"
  "popped (enqueue r u k st) = popped st"
  by (simp_all add: enqueue_def)

lemma exec_call_fields [simp]:
  "resourceCache (exec_call e r c st) = resourceCache st"
  "fetch_calls (exec_call e r c st) = fetch_calls st"
  "promise_count (exec_call e r c st) = promise_count st"
  "popped (exec_call e r c st) = popped st"
  by (cases c; simp)+

lemma run_calls_Nil [simp]: "run_calls e r [] st = st"
  by (simp add: run_calls_def)

lemma run_calls_Cons [simp]: "run_calls e r (c # cs) st = run_calls e r cs (exec_call e r c st)"
  by (simp add: run_calls_def)

lemma run_calls_append [simp]:
  "run_calls e r (cs @ ds) st = run_calls e r ds (run_calls e r cs st)"
  by (simp add: run_calls_def)

lemma run_calls_fields [simp]:
  "resourceCache (run_calls e r cs st) = resourceCache st"
  "fetch_calls (run_calls e r cs st) = fetch_calls st"
  "promise_count (run_calls e r cs st) = promise_count st"
  "popped (run_calls e r cs st) = popped st"
  by (induction cs arbitrary: st; simp)+

lemma cache_inv_cong:
  "resourceCache st' = resourceCache st \<Longrightarrow> fetch_calls st' = fetch_calls st
   \<Longrightarrow> promise_count st' = promise_count st \<Longrightarrow> cache_inv e st' = cache_inv e st"
  by (simp add: cache_inv_def)

lemma loadResource_fields:
  assumes "loadResource e u st = (p, st1)"
  shows "requests st1 = requests st" "pending st1 = pending st" "processed st1 = processed st"
    "popped st1 = popped st"
  using assms
  by (auto simp: loadResource_def fetchResourceContent_def Let_def split: option.splits if_splits)

lemma loadResource_cached:
  assumes "resourceCache st u = Some q"
  shows "loadResource e u st
           = (Promise (promise_count st) (await q), st\<lparr>promise_count := Suc (promise_count st)\<rparr>)"
  using assms by (simp add: loadResource_def Let_def)

lemma loadResource_new:
  assumes "resourceCache st u = None"
  shows "loadResource e u st
           = (Promise (promise_count st) (content_of e u),
              st\<lparr>promise_count := Suc (Suc (promise_count st)),
                 fetch_calls := fetch_calls st @ (if env_fetch_defined e then [u] else []),
                 resourceCache :=
                   (resourceCache st)(u \<mapsto> Promise (Suc (promise_count st)) (content_of e u))\<rparr>)"
  using assms by (simp add: loadResource_def fetchResourceContent_def content_of_def Let_def)

lemma loadResource_step:
  assumes inv: "cache_inv e st" and load: "loadResource e u st = (p, st1)"
  shows "cache_inv e st1" and "await p = content_of e u"
    and "\<exists>q. resourceCache st1 u = Some q \<and> await q = await p"
    and "resourceCache st \<subseteq>\<^sub>m resourceCache st1"
    and "set (fetch_calls st1) \<subseteq> set (fetch_calls st) \<union> {u}"
    and "promise_id p = promise_count st" and "promise_count st < promise_count st1"
    and "\<forall>u' q. resourceCache st1 u' = Some q \<longrightarrow> promise_id q \<noteq> promise_id p
           \<and> (resourceCache st u' = Some q \<or> promise_count st \<le> promise_id q)"
proof -
  from inv have bound: "\<And>u' p'. resourceCache st u' = Some p' \<Longrightarrow> promise_id p' < promise_count st"
    and val: "\<And>u' p'. resourceCache st u' = Some p' \<Longrightarrow> await p' = content_of e u'"
    by (auto simp: cache_inv_def)
  have "cache_inv e st1 \<and> await p = content_of e u
    \<and> (\<exists>q. resourceCache st1 u = Some q \<and> await q = await p)
    \<and> resourceCache st \<subseteq>\<^sub>m resourceCache st1
    \<and> set (fetch_calls st1) \<subseteq> set (fetch_calls st) \<union> {u}
    \<and> promise_id p = promise_count st \<and> promise_count st < promise_count st1
    \<and> (\<forall>u' q. resourceCache st1 u' = Some q \<longrightarrow> promise_id q \<noteq> promise_id p
           \<and> (resourceCache st u' = Some q \<or> promise_count st \<le> promise_id q))"
  proof (cases "resourceCache st u")
    case (Some q)
    from load loadResource_cached[OF Some, of e]
    have p: "p = Promise (promise_count st) (await q)"
      and st1: "st1 = st\<lparr>promise_count := Suc (promise_count st)\<rparr>"
      by simp_all
    have "cache_inv e st1"
      using inv unfolding st1 cache_inv_def by (auto dest: bound less_SucI)
    moreover have "\<forall>u' q. resourceCache st1 u' = Some q \<longrightarrow> promise_id q \<noteq> promise_id p
           \<and> (resourceCache st u' = Some q \<or> promise_count st \<le> promise_id q)"
    proof (intro allI impI)
      fix u' q'
      assume "resourceCache st1 u' = Some q'"
      then have old: "resourceCache st u' = Some q'" by (simp add: st1)
      from bound[OF old] old
      show "promise_id q' \<noteq> promise_id p
           \<and> (resourceCache st u' = Some q' \<or> promise_count st \<le> promise_id q')"
        by (simp add: p)
    qed
    ultimately show ?thesis
      using Some val[OF Some] by (auto simp: p st1)
  next
    case None
    from inv None have notin: "u \<notin> set (fetch_calls st)"
      by (auto simp: cache_inv_def)
    from load loadResource_new[OF None, of e]
    have p: "p = Promise (promise_count st) (content_of e u)"
      and st1: "st1 = st\<lparr>promise_count := Suc (Suc (promise_count st)),
                 fetch_calls := fetch_calls st @ (if env_fetch_defined e then [u] else []),
                 resourceCache :=
                   (resourceCache st)(u \<mapsto> Promise (Suc (promise_count st)) (content_of e u))\<rparr>"
      by simp_all
    have "cache_inv e st1"
      using inv notin unfolding st1 cache_inv_def
      by (auto dest: bound less_SucI)
    moreover have "resourceCache st \<subseteq>\<^sub>m resourceCache st1"
      using None by (auto simp: st1 map_le_def)
    moreover have "\<forall>u' q. resourceCache st1 u' = Some q \<longrightarrow> promise_id q \<noteq> promise_id p
           \<and> (resourceCache st u' = Some q \<or> promise_count st \<le> promise_id q)"
    proof (intro allI impI)
      fix u' q'
      assume c1: "resourceCache st1 u' = Some q'"
      show "promise_id q' \<noteq> promise_id p
           \<and> (resourceCache st u' = Some q' \<or> promise_count st \<le> promise_id q')"
      proof (cases "u' = u")
        case True
        with c1 show ?thesis by (auto simp: st1 p)
      next
        case False
        with c1 have old: "resourceCache st u' = Some q'" by (simp add: st1)
        from bound[OF old] old show ?thesis by (simp add: p)
      qed
    qed
    ultimately show ?thesis
      by (auto simp: p st1)
  qed
  then show "cache_inv e st1" and "await p = content_of e u"
    and "\<exists>q. resourceCache st1 u = Some q \<and> await q = await p"
    and "resourceCache st \<subseteq>\<^sub>m resourceCache st1"
    and "set (fetch_calls st1) \<subseteq> set (fetch_calls st) \<union> {u}"
    and "promise_id p = promise_count st" and "promise_count st < promise_count st1"
    and "\<forall>u' q. resourceCache st1 u' = Some q \<longrightarrow> promise_id q \<noteq> promise_id p
           \<and> (resourceCache st u' = Some q \<or> promise_count st \<le> promise_id q)"
    by blast+
qed

section \<open>Resource cache: one retrieval per URL\<close>

lemma load_all_inv:
  "cache_inv e st \<Longrightarrow> load_all e us st = (rs, st') \<Longrightarrow>
     cache_inv e st' \<and> length rs = length us
     \<and> (\<forall>i<length us. snd (rs ! i) = resourceCache st' (us ! i)
            \<and> (\<exists>q. snd (rs ! i) = Some q \<and> await (fst (rs ! i)) = await q))
     \<and> resourceCache st \<subseteq>\<^sub>m resourceCache st'
     \<and> set (fetch_calls st') \<subseteq> set (fetch_calls st) \<union> set us
     \<and> promise_count st \<le> promise_count st'
     \<and> (\<forall>r \<in> set rs. promise_count st \<le> promise_id (fst r))
     \<and> distinct (map (\<lambda>r. promise_id (fst r)) rs)
     \<and> (\<forall>u q. resourceCache st' u = Some q \<longrightarrow>
           (resourceCache st u = Some q \<or> promise_count st \<le> promise_id q)
           \<and> (\<forall>r \<in> set rs. promise_id q \<noteq> promise_id (fst r)))"
proof (induction us arbitrary: st rs st')
  case Nil
  then show ?case by simp
next
  case (Cons u us)
  obtain p st1 where l1: "loadResource e u st = (p, st1)" by (cases "loadResource e u st")
  obtain qs st2 where l2: "load_all e us st1 = (qs, st2)" by (cases "load_all e us st1")
  from Cons.prems(2) l1 l2 have eq: "rs = (p, resourceCache st1 u) # qs" "st' = st2" by auto
  note s1 = loadResource_step[OF Cons.prems(1) l1]
  from Cons.IH[OF s1(1) l2] have ih: "cache_inv e st2" "length qs = length us"
    "\<forall>i<length us. snd (qs ! i) = resourceCache st2 (us ! i)
            \<and> (\<exists>q. snd (qs ! i) = Some q \<and> await (fst (qs ! i)) = await q)"
    "resourceCache st1 \<subseteq>\<^sub>m resourceCache st2"
    "set (fetch_calls st2) \<subseteq> set (fetch_calls st1) \<union> set us"
    "promise_count st1 \<le> promise_count st2"
    "\<forall>r \<in> set qs. promise_count st1 \<le> promise_id (fst r)"
    "distinct (map (\<lambda>r. promise_id (fst r)) qs)"
    "\<forall>u q. resourceCache st2 u = Some q \<longrightarrow>
           (resourceCache st1 u = Some q \<or> promise_count st1 \<le> promise_id q)
           \<and> (\<forall>r \<in> set qs. promise_id q \<noteq> promise_id (fst r))"
    by blast+
  from s1(3) obtain q where q: "resourceCache st1 u = Some q" "await q = await p" by blast
  have u: "resourceCache st2 u = Some q"
    using q(1) ih(4) by (auto simp: map_le_def dom_def)
  have a: "\<forall>i<length (u # us). snd (rs ! i) = resourceCache st2 ((u # us) ! i)
            \<and> (\<exists>q. snd (rs ! i) = Some q \<and> await (fst (rs ! i)) = await q)"
  proof (intro allI impI)
    fix i assume i: "i < length (u # us)"
    show "snd (rs ! i) = resourceCache st2 ((u # us) ! i)
            \<and> (\<exists>q. snd (rs ! i) = Some q \<and> await (fst (rs ! i)) = await q)"
    proof (cases i)
      case 0
      with u q show ?thesis by (simp add: eq)
    next
      case (Suc k)
      with i have "k < length us" by simp
      with ih(3) have "snd (qs ! k) = resourceCache st2 (us ! k)
            \<and> (\<exists>q. snd (qs ! k) = Some q \<and> await (fst (qs ! k)) = await q)"
        by blast
      then obtain q' where a1: "snd (qs ! k) = resourceCache st2 (us ! k)"
        and a2: "snd (qs ! k) = Some q'" and a3: "await (fst (qs ! k)) = await q'"
        by blast
      have r: "rs ! i = qs ! k" "(u # us) ! i = us ! k" by (simp_all add: eq Suc)
      show ?thesis unfolding r using a1 a2 a3 by blast
    qed
  qed
  have b: "resourceCache st \<subseteq>\<^sub>m resourceCache st2"
    using s1(4) ih(4) by (rule map_le_trans)
  have c: "set (fetch_calls st2) \<subseteq> set (fetch_calls st) \<union> set (u # us)"
    using s1(5) ih(5) by auto
  have d: "promise_count st \<le> promise_count st2"
    using s1(7) ih(6) by simp
  have f: "\<forall>r \<in> set rs. promise_count st \<le> promise_id (fst r)"
    using s1(6,7) ih(7) by (auto simp: eq)
  have g: "distinct (map (\<lambda>r. promise_id (fst r)) rs)"
    using s1(6,7) ih(7,8) by (auto simp: eq)
  have h: "\<forall>u' q'. resourceCache st2 u' = Some q' \<longrightarrow>
           (resourceCache st u' = Some q' \<or> promise_count st \<le> promise_id q')
           \<and> (\<forall>r \<in> set rs. promise_id q' \<noteq> promise_id (fst r))"
  proof (intro allI impI)
    fix u' q'
    assume c2: "resourceCache st2 u' = Some q'"
    with ih(9) have alt: "resourceCache st1 u' = Some q' \<or> promise_count st1 \<le> promise_id q'"
      and rest: "\<forall>r \<in> set qs. promise_id q' \<noteq> promise_id (fst r)"
      by blast+
    from alt have "promise_id q' \<noteq> promise_id p
        \<and> (resourceCache st u' = Some q' \<or> promise_count st \<le> promise_id q')"
    proof
      assume "resourceCache st1 u' = Some q'"
      with s1(8) show ?thesis by blast
    next
      assume "promise_count st1 \<le> promise_id q'"
      with s1(6,7) show ?thesis by simp
    qed
    with rest show "(resourceCache st u' = Some q' \<or> promise_count st \<le> promise_id q')
           \<and> (\<forall>r \<in> set rs. promise_id q' \<noteq> promise_id (fst r))"
      by (simp add: eq)
  qed
  have l: "length rs = length (u # us)" using ih(2) by (simp add: eq)
  show ?case
    unfolding eq(2) by (intro conjI) (rule ih(1) l a b c d f g h)+
qed

lemma cache_inv_init: "cache_inv e init_state"
  by (simp add: cache_inv_def init_state_def)

lemma process_item_cache_inv:
  "cache_inv e st \<Longrightarrow> process_item e opts item st = Returns st' \<Longrightarrow> cache_inv e st'"
proof -
  assume inv: "cache_inv e st" and pr: "process_item e opts item st = Returns st'"
  obtain p st1 where l1: "loadResource e (fst item) st = (p, st1)"
    by (cases "loadResource e (fst item) st")
  note s1 = loadResource_step[OF inv l1]
  from pr l1 have "st' = st1 \<or> (\<exists>cs. st' = run_calls e (recursive_of opts) cs st1)"
    by (auto simp: process_item_def and_then_def split: option.splits outcome.splits)
  then show ?thesis
    using s1(1) by (auto simp: cache_inv_cong[of "run_calls e r cs st1" st1 for r cs])
qed

lemma processPending_invariant_aux:
  assumes step: "\<And>s it q s1. I s \<Longrightarrow> pending s = it # q
          \<Longrightarrow> process_item e0 opts0 it (s\<lparr>pending := q, popped := popped s @ [it]\<rparr>) = Returns s1
          \<Longrightarrow> I s1"
    and major: "processPending e opts st = Some out"
  shows "e = e0 \<and> opts = opts0 \<and> I st \<longrightarrow> (\<forall>st'. out = Returns st' \<longrightarrow> I st' \<and> pending st' = [])"
proof (rule processPending.raw_induct[where P = "\<lambda>e opts st out. e = e0 \<and> opts = opts0 \<and> I st
          \<longrightarrow> (\<forall>st'. out = Returns st' \<longrightarrow> I st' \<and> pending st' = [])", OF _ major])
  fix pp e opts st out
  assume IH: "\<And>e opts st out. pp e opts st = Some out \<Longrightarrow>
                e = e0 \<and> opts = opts0 \<and> I st \<longrightarrow> (\<forall>st'. out = Returns st' \<longrightarrow> I st' \<and> pending st' = [])"
    and body: "(case pending st of [] \<Rightarrow> Some (Returns st)
               | next_item # queue \<Rightarrow>
                   (case process_item e opts next_item
                           (st\<lparr>pending := queue, popped := popped st @ [next_item]\<rparr>) of
                      Returns st' \<Rightarrow> pp e opts st' | Throws \<Rightarrow> Some Throws | Spins \<Rightarrow> None))
               = Some out"
  show "e = e0 \<and> opts = opts0 \<and> I st \<longrightarrow> (\<forall>st'. out = Returns st' \<longrightarrow> I st' \<and> pending st' = [])"
  proof (intro impI allI)
    fix st'
    assume a: "e = e0 \<and> opts = opts0 \<and> I st" and out: "out = Returns st'"
    show "I st' \<and> pending st' = []"
    proof (cases "pending st")
      case Nil
      with body out a show ?thesis by simp
    next
      case (Cons it q)
      let ?st0 = "st\<lparr>pending := q, popped := popped st @ [it]\<rparr>"
      show ?thesis
      proof (cases "process_item e opts it ?st0")
        case (Returns st1)
        with a Cons step[of st it q st1] have "I st1" by simp
        moreover from body Cons Returns have "pp e opts st1 = Some out" by simp
        ultimately show ?thesis using IH[of e opts st1 out] a out by blast
      next
        case Throws
        with body Cons out show ?thesis by simp
      next
        case Spins
        with body Cons show ?thesis by simp
      qed
    qed
  qed
qed

lemma processPending_invariant:
  assumes "processPending e opts st = Some (Returns st')" and "I st"
    and "\<And>s it q s1. I s \<Longrightarrow> pending s = it # q
          \<Longrightarrow> process_item e opts it (s\<lparr>pending := q, popped := popped s @ [it]\<rparr>) = Returns s1
          \<Longrightarrow> I s1"
  shows "I st' \<and> pending st' = []"
  using processPending_invariant_aux[of I e opts e opts st "Returns st'"] assms by blast


lemma processPending_cache_inv:
  assumes "processPending e opts st = Some (Returns st')" and "cache_inv e st"
  shows "cache_inv e st'"
proof -
  have "cache_inv e st' \<and> pending st' = []"
  proof (rule processPending_invariant[where I = "cache_inv e", OF assms])
    fix s it q s1
    assume "cache_inv e s"
      and "process_item e opts it (s\<lparr>pending := q, popped := popped s @ [it]\<rparr>) = Returns s1"
    moreover have "cache_inv e (s\<lparr>pending := q, popped := popped s @ [it]\<rparr>) = cache_inv e s"
      by (simp add: cache_inv_def)
    ultimately show "cache_inv e s1" using process_item_cache_inv by blast
  qed
  then show ?thesis by simp
qed

text \<open>
  C1, as the claim states it, fails: a later call of \<^verbatim>\<open>loadResource\<close> for the same URL
  does not return the memoized promise.  \<^verbatim>\<open>loadResource\<close> is \<^verbatim>\<open>async\<close>, so two calls for one
  URL return two promises, and neither is the promise in the cache.  Of three calls, the
  first and the third for the same URL: the calls return the promises 0, 2 and 4; the cache
  holds promise 1 for the first URL, at the first call and at the third, and promise 3 for
  the second URL.
\<close>

theorem loadResource_returns_new_promise:
  "example_urls ! 0 = example_urls ! 2
   \<and> map (\<lambda>r. (promise_id (fst r), map_option promise_id (snd r)))
         (fst (load_all example_env example_urls init_state))
       = [(0, Some 1), (2, Some 3), (4, Some 1)]
   \<and> fst (fst (load_all example_env example_urls init_state) ! 2)
       \<noteq> fst (fst (load_all example_env example_urls init_state) ! 0)
   \<and> Some (fst (fst (load_all example_env example_urls init_state) ! 2))
       \<noteq> snd (fst (load_all example_env example_urls init_state) ! 2)
   \<and> snd (fst (load_all example_env example_urls init_state) ! 2)
       = snd (fst (load_all example_env example_urls init_state) ! 0)"
  by code_simp

text \<open>
  C1, amended.  In any sequence of \<^verbatim>\<open>loadResource\<close> calls of a run, no URL is passed to \<^verbatim>\<open>fetch\<close> twice
  and only requested URLs are fetched.  When a call returns, the cache holds a promise for
  its URL, the same one until the end of the run; two calls find the same promise in the
  cache exactly when they are for the same URL.  The promise that a call returns settles as
  the promise in the cache does, to the content of the URL; it is a promise of its own: no
  other call returns it, and the cache never holds it.  A call for a URL that is in the
  cache makes no retrieval and leaves the cache as it is; a call for a URL that is not puts
  the promise of its retrieval there, and calls \<^verbatim>\<open>fetch\<close> once when \<^verbatim>\<open>fetch\<close> is a function.  A
  retrieval that fails (no \<^verbatim>\<open>fetch\<close> function, a rejected \<^verbatim>\<open>fetch\<close>, a response that is not ok
  or cannot be read) settles to \<^verbatim>\<open>null\<close>, and is cached like any other.  At the end of a
  whole drain, after any first analysis pass, no URL was fetched twice.
\<close>

theorem loadResource_memoized:
  "(load_all e us init_state = (rs, st) \<longrightarrow>
      distinct (fetch_calls st) \<and> set (fetch_calls st) \<subseteq> set us \<and> length rs = length us
      \<and> (\<forall>i<length us. \<exists>q. snd (rs ! i) = Some q \<and> resourceCache st (us ! i) = Some q
                          \<and> await (fst (rs ! i)) = await q
                          \<and> await q = content_of e (us ! i))
      \<and> (\<forall>i<length us. \<forall>j<length us. (us ! i = us ! j) = (snd (rs ! i) = snd (rs ! j)))
      \<and> distinct (map fst rs)
      \<and> (\<forall>i<length us. \<forall>u. resourceCache st u \<noteq> Some (fst (rs ! i))))
   \<and> (resourceCache s u = Some q \<longrightarrow>
        (\<exists>p s'. loadResource e u s = (p, s') \<and> await p = await q
                \<and> resourceCache s' = resourceCache s \<and> fetch_calls s' = fetch_calls s))
   \<and> (resourceCache s u = None \<longrightarrow>
        (\<exists>p q s'. loadResource e u s = (p, s') \<and> resourceCache s' = (resourceCache s)(u \<mapsto> q)
                  \<and> await p = await q \<and> await q = content_of e u
                  \<and> fetch_calls s' = fetch_calls s @ (if env_fetch_defined e then [u] else [])))
   \<and> (\<not> env_fetch_defined e \<or> env_fetch e u = FetchRejects
        \<or> (\<exists>b. env_fetch e u = FetchResponse False b)
        \<or> (\<exists>ok. env_fetch e u = FetchResponse ok None) \<longrightarrow> content_of e u = None)
   \<and> (processPending e opts (run_calls e r cs init_state) = Some (Returns st')
        \<longrightarrow> distinct (fetch_calls st'))"
proof (intro conjI impI)
  assume la: "load_all e us init_state = (rs, st)"
  from load_all_inv[OF cache_inv_init la]
  have inv: "cache_inv e st" and len: "length rs = length us"
    and at: "\<forall>i<length us. snd (rs ! i) = resourceCache st (us ! i)
            \<and> (\<exists>q. snd (rs ! i) = Some q \<and> await (fst (rs ! i)) = await q)"
    and sub: "set (fetch_calls st) \<subseteq> set (fetch_calls init_state) \<union> set us"
    and ids: "distinct (map (\<lambda>r. promise_id (fst r)) rs)"
    and fresh: "\<forall>u q. resourceCache st u = Some q
                  \<longrightarrow> (\<forall>r \<in> set rs. promise_id q \<noteq> promise_id (fst r))"
    by blast+
  show "distinct (fetch_calls st)" using inv by (simp add: cache_inv_def)
  show "set (fetch_calls st) \<subseteq> set us" using sub by (simp add: init_state_def)
  show "length rs = length us" by (rule len)
  show "\<forall>i<length us. \<exists>q. snd (rs ! i) = Some q \<and> resourceCache st (us ! i) = Some q
                          \<and> await (fst (rs ! i)) = await q
                          \<and> await q = content_of e (us ! i)"
  proof (intro allI impI)
    fix i assume i: "i < length us"
    with at obtain q where q: "snd (rs ! i) = Some q" "await (fst (rs ! i)) = await q"
      and c: "snd (rs ! i) = resourceCache st (us ! i)" by blast
    from q(1) c have "resourceCache st (us ! i) = Some q" by simp
    moreover from this inv have "await q = content_of e (us ! i)" by (auto simp: cache_inv_def)
    ultimately show "\<exists>q. snd (rs ! i) = Some q \<and> resourceCache st (us ! i) = Some q
                          \<and> await (fst (rs ! i)) = await q
                          \<and> await q = content_of e (us ! i)"
      using q by blast
  qed
  show "\<forall>i<length us. \<forall>j<length us. (us ! i = us ! j) = (snd (rs ! i) = snd (rs ! j))"
  proof (intro allI impI)
    fix i j assume i: "i < length us" and j: "j < length us"
    from at i obtain qi where ci: "resourceCache st (us ! i) = Some qi" "snd (rs ! i) = Some qi"
      by fastforce
    from at j obtain qj where cj: "resourceCache st (us ! j) = Some qj" "snd (rs ! j) = Some qj"
      by fastforce
    show "(us ! i = us ! j) = (snd (rs ! i) = snd (rs ! j))"
    proof
      assume "us ! i = us ! j" with ci cj show "snd (rs ! i) = snd (rs ! j)" by simp
    next
      assume "snd (rs ! i) = snd (rs ! j)"
      with ci cj have "qi = qj" by simp
      with inv ci(1) cj(1) show "us ! i = us ! j" unfolding cache_inv_def by metis
    qed
  qed
  show "distinct (map fst rs)"
    using ids by (simp add: distinct_map inj_on_def)
  show "\<forall>i<length us. \<forall>u. resourceCache st u \<noteq> Some (fst (rs ! i))"
    using fresh len by (metis nth_mem)
next
  assume c: "resourceCache s u = Some q"
  show "\<exists>p s'. loadResource e u s = (p, s') \<and> await p = await q
                \<and> resourceCache s' = resourceCache s \<and> fetch_calls s' = fetch_calls s"
    by (simp add: loadResource_cached[OF c])
next
  assume c: "resourceCache s u = None"
  show "\<exists>p q s'. loadResource e u s = (p, s') \<and> resourceCache s' = (resourceCache s)(u \<mapsto> q)
                  \<and> await p = await q \<and> await q = content_of e u
                  \<and> fetch_calls s' = fetch_calls s @ (if env_fetch_defined e then [u] else [])"
    apply (rule exI[of _ "Promise (promise_count s) (content_of e u)"])
    apply (rule exI[of _ "Promise (Suc (promise_count s)) (content_of e u)"])
    apply (simp add: loadResource_new[OF c])
    done
next
  assume "\<not> env_fetch_defined e \<or> env_fetch e u = FetchRejects
        \<or> (\<exists>b. env_fetch e u = FetchResponse False b)
        \<or> (\<exists>ok. env_fetch e u = FetchResponse ok None)"
  then show "content_of e u = None"
    by (auto simp: content_of_def settled_def)
next
  assume pp: "processPending e opts (run_calls e r cs init_state) = Some (Returns st')"
  have "cache_inv e (run_calls e r cs init_state)"
    using cache_inv_init[of e] by (simp add: cache_inv_cong[of "run_calls e r cs init_state" init_state])
  from processPending_cache_inv[OF pp this] show "distinct (fetch_calls st')"
    by (simp add: cache_inv_def)
qed

theorem loadResource_memoized_witness:
  "distinct (fetch_calls (snd (load_all example_env example_urls init_state)))
   \<and> fetch_calls (snd (load_all example_env example_urls init_state))
       = [''https://example.com/a.css'', ''https://example.com/gone.css'']
   \<and> snd (fst (load_all example_env example_urls init_state) ! 0)
       = snd (fst (load_all example_env example_urls init_state) ! 2)
   \<and> snd (fst (load_all example_env example_urls init_state) ! 0)
       \<noteq> snd (fst (load_all example_env example_urls init_state) ! 1)
   \<and> await (fst (fst (load_all example_env example_urls init_state) ! 0))
       = await (fst (fst (load_all example_env example_urls init_state) ! 2))
   \<and> await (fst (fst (load_all example_env example_urls init_state) ! 1)) = None
   \<and> distinct (map fst (fst (load_all example_env example_urls init_state)))"
proof -
  let ?rs = "fst (load_all example_env example_urls init_state)"
  let ?st = "snd (load_all example_env example_urls init_state)"
  have run: "load_all example_env example_urls init_state = (?rs, ?st)" by simp
  have len: "length example_urls = 3" by (simp add: example_urls_def)
  have calls: "fetch_calls ?st = [''https://example.com/a.css'', ''https://example.com/gone.css'']"
    by code_simp
  have gone: "env_fetch example_env ''https://example.com/gone.css'' = FetchResponse False None"
    by (simp add: example_env_def example_fetch_def)
  from loadResource_memoized[of example_env example_urls ?rs ?st init_state
      "''https://example.com/gone.css''" "Promise 0 None" example_opts False "[]" init_state] run gone
  have d: "distinct (fetch_calls ?st)"
    and val: "\<forall>i<length example_urls. \<exists>q. snd (?rs ! i) = Some q
                          \<and> resourceCache ?st (example_urls ! i) = Some q
                          \<and> await (fst (?rs ! i)) = await q
                          \<and> await q = content_of example_env (example_urls ! i)"
    and same: "\<forall>i<length example_urls. \<forall>j<length example_urls.
                 (example_urls ! i = example_urls ! j) = (snd (?rs ! i) = snd (?rs ! j))"
    and own: "distinct (map fst ?rs)"
    and none: "content_of example_env ''https://example.com/gone.css'' = None"
    by blast+
  from same len have "(example_urls ! 0 = example_urls ! 2) = (snd (?rs ! 0) = snd (?rs ! 2))"
    by simp
  then have s02: "snd (?rs ! 0) = snd (?rs ! 2)" by (simp add: example_urls_def)
  from same len have "(example_urls ! 0 = example_urls ! 1) = (snd (?rs ! 0) = snd (?rs ! 1))"
    by simp
  then have s01: "snd (?rs ! 0) \<noteq> snd (?rs ! 1)" by (simp add: example_urls_def)
  from val[rule_format, of 0] len
  obtain q0 where q0: "snd (?rs ! 0) = Some q0" "await (fst (?rs ! 0)) = await q0"
    by auto
  from val[rule_format, of 2] len
  obtain q2 where q2: "snd (?rs ! 2) = Some q2" "await (fst (?rs ! 2)) = await q2"
    by auto
  from q0 q2 s02 have a02: "await (fst (?rs ! 0)) = await (fst (?rs ! 2))" by simp
  from val[rule_format, of 1] len
  obtain q1 where "await (fst (?rs ! 1)) = await q1"
    "await q1 = content_of example_env (example_urls ! 1)"
    by auto
  with none have a1: "await (fst (?rs ! 1)) = None" by (simp add: example_urls_def)
  from d calls s02 s01 a02 a1 own show ?thesis by blast
qed

section \<open>Non-fetchable schemes: the queue never holds them\<close>

lemma isSkippableUrl_nonempty: "isSkippableUrl url \<Longrightarrow> url \<noteq> []"
  by (auto simp: isSkippableUrl_def startsWith_def toLowerCase_def)

lemma enqueue_skippable: "isSkippableUrl url \<Longrightarrow> enqueue r url k st = st"
  by (simp add: enqueue_def)

lemma recordUrl_requests:
  "requests (recordUrl e u s b st) =
     requests st @ (case truthy (resolveUrl e b u) of
                      None \<Rightarrow> []
                    | Some v \<Rightarrow> [\<lparr>rr_url = v, rr_source = s,
                                  rr_timestamp = env_date_now e (length (requests st))\<rparr>])"
  by (simp add: recordUrl_def split: option.splits)

lemma no_skippable_enqueue: "no_skippable st \<Longrightarrow> no_skippable (enqueue r u k st)"
  by (auto simp: no_skippable_def enqueue_def)

lemma no_skippable_recordUrl: "no_skippable (recordUrl e u s b st) = no_skippable st"
  by (simp add: no_skippable_def)

lemma no_skippable_run_calls: "no_skippable st \<Longrightarrow> no_skippable (run_calls e r cs st)"
proof (induction cs arbitrary: st)
  case Nil then show ?case by simp
next
  case (Cons c cs)
  then show ?case
    by (cases c) (simp_all add: no_skippable_enqueue no_skippable_recordUrl)
qed

lemma no_skippable_process_item:
  assumes "no_skippable st" and "process_item e opts it st = Returns st1"
  shows "no_skippable st1"
proof -
  obtain p s1 where l1: "loadResource e (fst it) st = (p, s1)"
    by (cases "loadResource e (fst it) st")
  from loadResource_fields[OF l1] assms(1) have "no_skippable s1"
    by (simp add: no_skippable_def)
  moreover from assms(2) l1 have "st1 = s1 \<or> (\<exists>cs. st1 = run_calls e (recursive_of opts) cs s1)"
    by (auto simp: process_item_def and_then_def split: option.splits outcome.splits)
  ultimately show ?thesis by (auto intro: no_skippable_run_calls)
qed

lemma no_skippable_processPending:
  assumes "processPending e opts st = Some (Returns st')" and "no_skippable st"
  shows "no_skippable st'"
proof -
  have "no_skippable st' \<and> pending st' = []"
  proof (rule processPending_invariant[where I = no_skippable, OF assms])
    fix s it q s1
    assume s: "no_skippable s" and p: "pending s = it # q"
      and pr: "process_item e opts it (s\<lparr>pending := q, popped := popped s @ [it]\<rparr>) = Returns s1"
    from s p have "no_skippable (s\<lparr>pending := q, popped := popped s @ [it]\<rparr>)"
      by (auto simp: no_skippable_def)
    from no_skippable_process_item[OF this pr] show "no_skippable s1" .
  qed
  then show ?thesis by simp
qed

lemma no_skippable_init: "no_skippable init_state"
  by (simp add: no_skippable_def init_state_def)

section \<open>Request log: append-only, duplicates kept\<close>

lemma prefix_recordUrl: "prefix (requests st) (requests (recordUrl e u s b st))"
  by (simp add: recordUrl_requests)

lemma prefix_exec_call: "prefix (requests st) (requests (exec_call e r c st))"
  by (cases c) (simp_all add: prefix_recordUrl)

lemma prefix_run_calls: "prefix (requests st) (requests (run_calls e r cs st))"
proof (induction cs arbitrary: st)
  case Nil then show ?case by simp
next
  case (Cons c cs)
  from prefix_exec_call[of st e r c] Cons[of "exec_call e r c st"] show ?case
    by (auto intro: prefix_order.trans)
qed

lemma prefix_process_item:
  assumes "process_item e opts it st = Returns st1"
  shows "prefix (requests st) (requests st1)"
proof -
  obtain p s1 where l1: "loadResource e (fst it) st = (p, s1)"
    by (cases "loadResource e (fst it) st")
  from assms l1 have "st1 = s1 \<or> (\<exists>cs. st1 = run_calls e (recursive_of opts) cs s1)"
    by (auto simp: process_item_def and_then_def split: option.splits outcome.splits)
  with loadResource_fields(1)[OF l1] prefix_run_calls[of s1 e "recursive_of opts"]
  show ?thesis by auto
qed

lemma prefix_processPending:
  assumes "processPending e opts st = Some (Returns st')"
  shows "prefix (requests st) (requests st')"
proof -
  have "prefix (requests st) (requests st') \<and> pending st' = []"
  proof (rule processPending_invariant[where I = "\<lambda>s. prefix (requests st) (requests s)", OF assms])
    show "prefix (requests st) (requests st)" by simp
  next
    fix s it q s1
    assume s: "prefix (requests st) (requests s)"
      and pr: "process_item e opts it (s\<lparr>pending := q, popped := popped s @ [it]\<rparr>) = Returns s1"
    from prefix_process_item[OF pr] s show "prefix (requests st) (requests s1)"
      by (auto intro: prefix_order.trans)
  qed
  then show ?thesis by simp
qed

declare processPending.simps [code]

lemma run_example:
  "run example_env plain_opts example_css_input =
     Some (Returns \<lparr>res_title = None, res_capturedAt = ''2026-01-01T00:00:00.000Z'',
        res_requests = [\<lparr>rr_url = ''https://example.com/x.css'', rr_source = S_css, rr_timestamp = 0\<rparr>,
           \<lparr>rr_url = ''https://example.com/x.css'', rr_source = S_css, rr_timestamp = 1\<rparr>]\<rparr>)"
  by code_simp

text \<open>
  C9.  The request log only grows, and only at its end: every closure call keeps the log as
  a prefix and appends at most one record; so do a sequence of closure calls, the processing
  of one queue item and a whole drain.  \<^verbatim>\<open>recordUrl\<close> never looks at the records already there:
  recording a URL twice, under the same or another source tag, leaves two records.
\<close>

theorem requests_append_only:
  "prefix (requests st) (requests (exec_call e r c st))
   \<and> length (requests (exec_call e r c st)) \<le> Suc (length (requests st))
   \<and> prefix (requests st) (requests (run_calls e r cs st))
   \<and> (process_item e opts item st = Returns st1 \<longrightarrow> prefix (requests st) (requests st1))
   \<and> (processPending e opts st = Some (Returns st2) \<longrightarrow> prefix (requests st) (requests st2))
   \<and> (\<forall>v. truthy (resolveUrl e b u) = Some v \<longrightarrow>
          map untimed (requests (recordUrl e u s2 b (recordUrl e u s1 b st)))
            = map untimed (requests st) @ [(v, s1), (v, s2)])"
proof -
  have "length (requests (exec_call e r c st)) \<le> Suc (length (requests st))"
    by (cases c) (simp_all add: recordUrl_requests split: option.splits)
  moreover have "\<forall>v. truthy (resolveUrl e b u) = Some v \<longrightarrow>
          map untimed (requests (recordUrl e u s2 b (recordUrl e u s1 b st)))
            = map untimed (requests st) @ [(v, s1), (v, s2)]"
    by (simp add: recordUrl_requests untimed_def)
  ultimately show ?thesis
    using prefix_exec_call prefix_run_calls prefix_process_item prefix_processPending by blast
qed

theorem requests_append_only_witness:
  "map untimed (requests (recordUrl example_env example_api S_unknown None
                            (recordUrl example_env example_api S_fetch None init_state)))
     = [(example_api, S_fetch), (example_api, S_unknown)]
   \<and> prefix (requests init_state)
        (requests (run_calls example_env False [RecordUrl example_api S_fetch None] init_state))
   \<and> map untimed (requests (run_calls example_env False
         [RecordUrl example_api S_fetch None, RecordUrl example_api S_fetch None] init_state))
     = [(example_api, S_fetch), (example_api, S_fetch)]"
proof -
  have t: "truthy (resolveUrl example_env None example_api) = Some example_api"
    by code_simp
  have i: "requests init_state = []" by (simp add: init_state_def)
  from requests_append_only[of init_state example_env False "RecordUrl example_api S_fetch None"
      "[RecordUrl example_api S_fetch None]" example_opts "(example_api, None)" init_state
      init_state None example_api S_unknown S_fetch] t i
  have 1: "map untimed (requests (recordUrl example_env example_api S_unknown None
                            (recordUrl example_env example_api S_fetch None init_state)))
     = [(example_api, S_fetch), (example_api, S_unknown)]"
    and 2: "prefix (requests init_state)
        (requests (run_calls example_env False [RecordUrl example_api S_fetch None] init_state))"
    by simp_all
  from requests_append_only[of init_state example_env False "RecordUrl example_api S_fetch None"
      "[RecordUrl example_api S_fetch None]" example_opts "(example_api, None)" init_state
      init_state None example_api S_fetch S_fetch] t i
  have 3: "map untimed (requests (run_calls example_env False
         [RecordUrl example_api S_fetch None, RecordUrl example_api S_fetch None] init_state))
     = [(example_api, S_fetch), (example_api, S_fetch)]"
    by simp
  from 1 2 3 show ?thesis by blast
qed

section \<open>Discovery order: what it depends on\<close>

lemma resolveUrl_env: "env_new_URL e' = env_new_URL e \<Longrightarrow> resolveUrl e' = resolveUrl e"
  by (simp add: fun_eq_iff resolveUrl_def)

lemma analyzers_env:
  assumes "env_new_URL e' = env_new_URL e"
  shows "for_resolved e' = for_resolved e" "for_resolved_js e' = for_resolved_js e"
    "recordCssUrls e' = recordCssUrls e" "analyzeJs e' = analyzeJs e"
    "interceptor e' = interceptor e" "link_calls e' = link_calls e" "harvest e' = harvest e"
proof -
  note r = resolveUrl_env[OF assms]
  show 1: "for_resolved e' = for_resolved e"
    unfolding fun_eq_iff for_resolved_def r by simp
  show 2: "for_resolved_js e' = for_resolved_js e"
    unfolding fun_eq_iff for_resolved_js_def r by simp
  show 3: "recordCssUrls e' = recordCssUrls e"
    unfolding fun_eq_iff recordCssUrls_def 1 by simp
  show "analyzeJs e' = analyzeJs e"
    unfolding fun_eq_iff analyzeJs_def 2 by simp
  show "interceptor e' = interceptor e"
    unfolding fun_eq_iff interceptor_def r by simp
  show 4: "link_calls e' = link_calls e"
    unfolding fun_eq_iff link_calls_def r by simp
  show "harvest e' = harvest e"
    unfolding fun_eq_iff harvest_def 3 4 by simp
qed

lemma analyze_input_env:
  assumes "env_new_URL e' = env_new_URL e"
    and "detectInputKind input = K_html
           \<Longrightarrow> env_jsdom e' input None (settle_of opts) = env_jsdom e input None (settle_of opts)"
  shows "analyze_input e' opts input = analyze_input e opts input"
proof (cases "detectInputKind input")
  case K_html
  from assms(2)[OF this] show ?thesis
    unfolding analyze_input_def analyzeHtml_def analyzers_env[OF assms(1)] by (simp add: K_html)
next
  case K_css
  then show ?thesis
    unfolding analyze_input_def analyzers_env[OF assms(1)] by simp
next
  case K_js
  then show ?thesis
    unfolding analyze_input_def analyzers_env[OF assms(1)] by simp
qed

lemma pending_run_calls_False: "pending (run_calls e False cs st) = pending st"
proof (induction cs arbitrary: st)
  case Nil then show ?case by simp
next
  case (Cons c cs) then show ?case by (cases c) (simp_all add: enqueue_def)
qed

lemma untimed_record [simp]: "untimed \<lparr>rr_url = v, rr_source = s, rr_timestamp = t\<rparr> = (v, s)"
  by (simp add: untimed_def)

lemma untimed_run_calls:
  assumes "env_new_URL e' = env_new_URL e"
  shows "map untimed (requests st') = map untimed (requests st) \<Longrightarrow>
         map untimed (requests (run_calls e' r cs st')) = map untimed (requests (run_calls e r cs st))"
proof (induction cs arbitrary: st st')
  case Nil then show ?case by simp
next
  case (Cons c cs)
  have "map untimed (requests (exec_call e' r c st')) = map untimed (requests (exec_call e r c st))"
  proof (cases c)
    case (RecordUrl u s b)
    show ?thesis
      by (cases "truthy (resolveUrl e b u)")
         (simp_all add: RecordUrl recordUrl_requests resolveUrl_env[OF assms] Cons.prems)
  next
    case (Enqueue u k)
    then show ?thesis by (simp add: Cons.prems)
  qed
  from Cons.IH[OF this] show ?case by simp
qed

lemma push_trimmed_returns: "m 2 \<noteq> None \<Longrightarrow> \<exists>acc'. push_trimmed m acc = Returns acc'"
  by (auto simp: push_trimmed_def)

lemma extractCssDependencies_returns: "\<exists>d. extractCssDependencies t = Returns d"
proof -
  have "\<exists>a. while_exec True urlPattern push_trimmed [] None t = Returns a"
    by (rule while_exec_returns[where g = 2])
       (simp_all add: urlPattern_def min_len_seqs min_len_lit sure_group_seqs push_trimmed_returns)
  moreover have "\<exists>a. while_exec True cssImportPattern push_trimmed [] None t = Returns a"
    by (rule while_exec_returns[where g = 2])
       (simp_all add: cssImportPattern_def min_len_seqs min_len_lit sure_group_seqs
          push_trimmed_returns)
  ultimately show ?thesis by (auto simp: extractCssDependencies_def)
qed

lemma while_add_group1_returns:
  assumes "0 < min_len r"
  shows "\<exists>a. while_exec False r add_group1 acc None t = Returns a"
proof -
  from assms have "\<exists>a. while_exec False r add_group1 acc None t = Returns a \<and> True"
    by (rule while_exec_rule) (auto simp: add_group1_def)
  then show ?thesis by simp
qed

lemma extractJsDependencies_returns: "\<exists>d. extractJsDependencies t = Returns d"
proof -
  have 1: "0 < min_len jsImportPattern"
    by (simp add: jsImportPattern_def min_len_seqs min_len_lit)
  have 2: "0 < min_len dynamicImportPattern"
    by (simp add: dynamicImportPattern_def min_len_seqs min_len_lit)
  have 3: "0 < min_len importScriptsPattern"
    by (simp add: importScriptsPattern_def min_len_seqs min_len_lit)
  have 4: "0 < min_len fetchPattern"
    by (simp add: fetchPattern_def min_len_seqs min_len_lit)
  have 5: "0 < min_len xhrPattern"
    by (simp add: xhrPattern_def min_len_seqs min_len_lit)
  obtain a1 where a1: "while_exec False jsImportPattern add_group1 [] None t = Returns a1"
    using while_add_group1_returns[OF 1] by blast
  obtain a2 where a2: "while_exec False dynamicImportPattern add_group1 a1 None t = Returns a2"
    using while_add_group1_returns[OF 2] by blast
  obtain a3 where a3: "while_exec False importScriptsPattern add_group1 [] None t = Returns a3"
    using while_add_group1_returns[OF 3] by blast
  obtain a4 where a4: "while_exec False fetchPattern add_group1 [] None t = Returns a4"
    using while_add_group1_returns[OF 4] by blast
  obtain a5 where a5: "while_exec False xhrPattern add_group1 [] None t = Returns a5"
    using while_add_group1_returns[OF 5] by blast
  show ?thesis
    by (simp add: extractJsDependencies_def and_then_def a1 a2 a3 a4 a5)
qed

lemma recordCssUrls_returns: "\<exists>cs. recordCssUrls e t b = Returns cs"
  using extractCssDependencies_returns[of t] by (auto simp: recordCssUrls_def and_then_def)

lemma analyzeJs_returns: "\<exists>cs. analyzeJs e t b = Returns cs"
  using extractJsDependencies_returns[of t] by (auto simp: analyzeJs_def and_then_def)

lemma collect_returns:
  "(\<And>x. x \<in> set xs \<Longrightarrow> \<exists>cs. f x = Returns cs) \<Longrightarrow> \<exists>cs. collect f xs = Returns cs"
proof (induction xs)
  case Nil then show ?case by simp
next
  case (Cons x xs)
  from Cons.prems obtain c where "f x = Returns c" by auto
  moreover from Cons obtain d where "collect f xs = Returns d" by auto
  ultimately show ?case by (simp add: and_then_def)
qed

lemma collect_member:
  "collect f xs = Returns cs \<Longrightarrow> x \<in> set xs \<Longrightarrow> f x = Returns c \<Longrightarrow> set c \<subseteq> set cs"
proof (induction xs arbitrary: cs)
  case Nil then show ?case by simp
next
  case (Cons y ys)
  from Cons.prems(1) obtain c1 d where y: "f y = Returns c1" and ys: "collect f ys = Returns d"
    and cs: "cs = c1 @ d"
    by (auto simp: and_then_def split: outcome.splits)
  show ?case
  proof (cases "x = y")
    case True
    with y Cons.prems(3) cs show ?thesis by auto
  next
    case False
    with Cons.prems(2) have "x \<in> set ys" by simp
    from Cons.IH[OF ys this Cons.prems(3)] cs show ?thesis by auto
  qed
qed

lemma harvest_returns: "\<exists>cs. harvest e b els = Returns cs"
proof -
  have 1: "\<exists>cs. collect (\<lambda>el. case truthy (getAttribute el ''style'') of
                        None \<Rightarrow> Returns []
                      | Some cssText \<Rightarrow> recordCssUrls e cssText b)
          (filter (has_attr ''style'') els) = Returns cs"
    by (rule collect_returns) (auto split: option.splits intro: recordCssUrls_returns)
  have 2: "\<exists>cs. collect (\<lambda>el. if el_textContent el \<noteq> []
                      then recordCssUrls e (el_textContent el) b else Returns [])
          (filter (has_tag ''style'') els) = Returns cs"
    by (rule collect_returns) (auto intro: recordCssUrls_returns)
  show ?thesis
    unfolding harvest_def in_order_def
    by (rule collect_returns) (use 1 2 in auto)
qed

lemma analyzeHtml_no_spin: "analyzeHtml e opts t b c \<noteq> Spins"
proof (cases "env_jsdom e t b (settle_of opts)")
  case None
  then show ?thesis by (simp add: analyzeHtml_def)
next
  case (Some d)
  from harvest_returns[of e b "dom_elements d"] obtain hs
    where "harvest e b (dom_elements d) = Returns hs" by blast
  with Some show ?thesis by (simp add: analyzeHtml_def and_then_def)
qed

lemma analyze_input_no_spin: "analyze_input e opts input \<noteq> Spins"
  using recordCssUrls_returns[of e input None] analyzeJs_returns[of e input None]
    analyzeHtml_no_spin[of e opts input None True]
  by (auto simp: analyze_input_def and_then_def split: ResourceKind.splits)


lemma processPending_empty: "pending st = [] \<Longrightarrow> processPending e opts st = Some (Returns st)"
  by (simp add: processPending.simps)

lemma run_example_script:
  "map_option (map_outcome untimed_result)
     (run (example_env\<lparr>env_jsdom := example_render ''1''\<rparr>) plain_opts example_script_input)
   = Some (Returns (None, [(''https://example.com/t?1'', S_unknown)]))"
  by code_simp

text \<open>
  C8, as the claim states it, fails on markup with a script: two runs on the same markup,
  with recursion disabled and the same URL constructor and retrieval primitive, whose
  request lists differ in a URL.  The script of the markup asks for an image at a URL that
  holds the time it reads from the clock, the rendering environment runs the script, and
  the callback records the URL.
\<close>

theorem script_requests_differ_between_runs:
  "recursive_of plain_opts = False
   \<and> detectInputKind example_script_input = K_html
   \<and> map_option (map_outcome untimed_result)
        (run (example_env\<lparr>env_jsdom := example_render ''1''\<rparr>) plain_opts example_script_input)
     = Some (Returns (None, [(''https://example.com/t?1'', S_unknown)]))
   \<and> map_option (map_outcome untimed_result)
        (run (example_env\<lparr>env_jsdom := example_render ''2''\<rparr>) plain_opts example_script_input)
     = Some (Returns (None, [(''https://example.com/t?2'', S_unknown)]))
   \<and> map_option (map_outcome untimed_result)
        (run (example_env\<lparr>env_jsdom := example_render ''1''\<rparr>) plain_opts example_script_input)
     \<noteq> map_option (map_outcome untimed_result)
        (run (example_env\<lparr>env_jsdom := example_render ''2''\<rparr>) plain_opts example_script_input)"
  by code_simp

text \<open>
  C8, amended.  With recursion disabled the engine returns or throws, it does not run
  forever.  Take two runs on the same input, with the same URL constructor; their clocks
  (the \<^verbatim>\<open>Date.now()\<close> values, \<^verbatim>\<open>capturedAt\<close>) and their retrieval primitives may differ.  When the input is a style sheet or a script, or when it
  is markup and the rendering environment does the same with it in both runs (the same calls
  of the callback, the same elements, the same title), the two runs have the same outcome
  and, when they return, the same title and the same request list, record by record in url
  and source and in the same order.
\<close>

theorem discovery_order_deterministic:
  "recursive_of opts = False \<and> env_new_URL e2 = env_new_URL e1
     \<and> (detectInputKind input = K_html
          \<longrightarrow> env_jsdom e2 input None (settle_of opts) = env_jsdom e1 input None (settle_of opts))
   \<longrightarrow> (\<exists>out. run e1 opts input = Some out)
       \<and> map_option (map_outcome untimed_result) (run e2 opts input)
         = map_option (map_outcome untimed_result) (run e1 opts input)"
proof
  assume a: "recursive_of opts = False \<and> env_new_URL e2 = env_new_URL e1
     \<and> (detectInputKind input = K_html
          \<longrightarrow> env_jsdom e2 input None (settle_of opts) = env_jsdom e1 input None (settle_of opts))"
  then have rec: "recursive_of opts = False" and url: "env_new_URL e2 = env_new_URL e1"
    by simp_all
  have an: "analyze_input e2 opts input = analyze_input e1 opts input"
    by (rule analyze_input_env[OF url]) (use a in simp)
  show "(\<exists>out. run e1 opts input = Some out)
     \<and> map_option (map_outcome untimed_result) (run e2 opts input)
       = map_option (map_outcome untimed_result) (run e1 opts input)"
  proof (cases "analyze_input e1 opts input")
    case (Returns ct)
    obtain cs title where ct: "ct = (cs, title)" by (cases ct)
    have p: "pending (run_calls e1 False cs init_state) = []"
      "pending (run_calls e2 False cs init_state) = []"
      by (simp_all add: pending_run_calls_False init_state_def)
    have u: "map untimed (requests (run_calls e2 False cs init_state))
           = map untimed (requests (run_calls e1 False cs init_state))"
      by (rule untimed_run_calls[OF url]) simp
    show ?thesis
      using Returns ct an rec u
      by (simp add: run_def processPending_empty[OF p(1)] processPending_empty[OF p(2)]
            untimed_result_def)
  next
    case Throws
    with an show ?thesis by (simp add: run_def)
  next
    case Spins
    with analyze_input_no_spin show ?thesis by simp
  qed
qed

theorem discovery_order_deterministic_witness:
  "recursive_of plain_opts = False
   \<and> (\<exists>out. run example_env plain_opts example_css_input = Some out)
   \<and> map_option (map_outcome untimed_result)
        (run (example_env\<lparr>env_fetch_defined := False, env_jsdom := example_render ''2'',
                          env_date_now := (\<lambda>n. 1000 + int n), env_date_iso := ''later''\<rparr>)
           plain_opts example_css_input)
     = Some (Returns (None, [(''https://example.com/x.css'', S_css),
                             (''https://example.com/x.css'', S_css)]))
   \<and> detectInputKind example_script_input = K_html
   \<and> map_option (map_outcome untimed_result)
        (run (example_env\<lparr>env_fetch_defined := False, env_jsdom := example_render ''1'',
                          env_date_now := (\<lambda>n. 1000 + int n), env_date_iso := ''later''\<rparr>)
           plain_opts example_script_input)
     = Some (Returns (None, [(''https://example.com/t?1'', S_unknown)]))"
proof -
  have r: "recursive_of plain_opts = False" by (simp add: plain_opts_def recursive_of_def)
  have css: "detectInputKind example_css_input = K_css" by code_simp
  have html: "detectInputKind example_script_input = K_html" by code_simp
  from discovery_order_deterministic[where opts = plain_opts and ?e1.0 = example_env
      and ?e2.0 = "example_env\<lparr>env_fetch_defined := False, env_jsdom := example_render ''2'',
                          env_date_now := (\<lambda>n. 1000 + int n), env_date_iso := ''later''\<rparr>"
      and input = example_css_input] r css
  have 1: "(\<exists>out. run example_env plain_opts example_css_input = Some out)
   \<and> map_option (map_outcome untimed_result)
        (run (example_env\<lparr>env_fetch_defined := False, env_jsdom := example_render ''2'',
                          env_date_now := (\<lambda>n. 1000 + int n), env_date_iso := ''later''\<rparr>)
           plain_opts example_css_input)
     = Some (Returns (None, [(''https://example.com/x.css'', S_css),
                             (''https://example.com/x.css'', S_css)]))"
    by (simp add: run_example untimed_result_def)
  from discovery_order_deterministic[where opts = plain_opts
      and ?e1.0 = "example_env\<lparr>env_jsdom := example_render ''1''\<rparr>"
      and ?e2.0 = "example_env\<lparr>env_fetch_defined := False, env_jsdom := example_render ''1'',
                          env_date_now := (\<lambda>n. 1000 + int n), env_date_iso := ''later''\<rparr>"
      and input = example_script_input] r
  have 2: "map_option (map_outcome untimed_result)
        (run (example_env\<lparr>env_fetch_defined := False, env_jsdom := example_render ''1'',
                          env_date_now := (\<lambda>n. 1000 + int n), env_date_iso := ''later''\<rparr>)
           plain_opts example_script_input)
     = Some (Returns (None, [(''https://example.com/t?1'', S_unknown)]))"
    by (simp add: run_example_script)
  from r 1 html 2 show ?thesis by blast
qed

section \<open>Discovery queue: the drain loop ends\<close>


lemma recordUrl_queue [simp]:
  "queue_inv (recordUrl e u s b st) = queue_inv st"
  "drain_measure U (recordUrl e u s b st) = drain_measure U st"
  by (simp_all add: queue_inv_def drain_measure_def)



lemma process_item_expansion:
  assumes inv: "cache_inv e st" and l1: "loadResource e (fst it) st = (p, s1)"
  shows "process_item e opts it st =
           and_then (expansion e opts it) (\<lambda>cs. Returns (run_calls e (recursive_of opts) cs s1))"
proof -
  from loadResource_step(2)[OF inv l1] have "await p = content_of e (fst it)" .
  then show ?thesis
    using l1 by (simp add: process_item_def expansion_def and_then_def split: option.splits)
qed


lemma queue_inv_cong:
  "pending s' = pending s \<Longrightarrow> popped s' = popped s \<Longrightarrow> processed s' = processed s
   \<Longrightarrow> queue_inv s' = queue_inv s"
  by (simp add: queue_inv_def)

lemma drain_measure_cong:
  "pending s' = pending s \<Longrightarrow> processed s' = processed s
   \<Longrightarrow> drain_measure U s' = drain_measure U s"
  by (simp add: drain_measure_def)










section \<open>Resource kind classifier: first match wins\<close>

lemma str_includes_Nil [simp]: "str_includes [] (c # p) = False"
  by simp

lemma startsWith_append: "startsWith s (p @ q) \<Longrightarrow> startsWith s p"
  by (auto simp: startsWith_def) (metis append_eq_conv_conj append_take_drop_id take_append take_take min.absorb1 le_add1 length_append)

lemma detect_first_match:
  "detectResourceKind url ct body
     = first_match [by_content_type ct, inferResourceKindFromUrl url, by_sniffing body]"
proof -
  have lt: "\<And>t. startsWith t ''<!doctype'' \<or> startsWith t ''<html'' \<Longrightarrow> startsWith t ''<''"
    using startsWith_append[of _ "''<''" "''!doctype''"] startsWith_append[of _ "''<''" "''html''"]
    by auto
  show ?thesis
  proof (cases "by_content_type ct")
    case (Some k)
    then show ?thesis
      by (auto simp: detectResourceKind_def by_content_type_def Let_def split: option.splits if_splits)
  next
    case None
    then have n: "\<not> str_includes (case ct of None \<Rightarrow> [] | Some c \<Rightarrow> toLowerCase c) ''text/html''"
      "\<not> str_includes (case ct of None \<Rightarrow> [] | Some c \<Rightarrow> toLowerCase c) ''text/css''"
      "\<not> str_includes (case ct of None \<Rightarrow> [] | Some c \<Rightarrow> toLowerCase c) ''javascript''"
      by (auto simp: by_content_type_def split: option.splits if_splits)
    show ?thesis
    proof (cases "inferResourceKindFromUrl url")
      case (Some k)
      with None n show ?thesis by (simp add: detectResourceKind_def Let_def)
    next
      case inf: None
      with None n lt[of "trimStart body"] show ?thesis
        by (auto simp: detectResourceKind_def by_sniffing_def Let_def)
    qed
  qed
qed

lemma split_pop_ext: "CHR ''.'' \<notin> set ext \<Longrightarrow> split_pop (CHR ''.'') (stem @ CHR ''.'' # ext) = ext"
proof -
  assume a: "CHR ''.'' \<notin> set ext"
  have "takeWhile (\<lambda>x. x \<noteq> CHR ''.'') (rev ext @ CHR ''.'' # rev stem) = rev ext"
    using a by (subst takeWhile_append2) auto
  then show ?thesis by (simp add: split_pop_def)
qed

lemma infer_extension_kind:
  "inferResourceKindFromUrl url
     = extension_kind (toLowerCase (split_pop (CHR ''.'')
         (split_first (CHR ''#'') (split_first (CHR ''?'') url))))"
  by (auto simp: inferResourceKindFromUrl_def extension_kind_def Let_def)

lemma first_match_single [simp]: "first_match [x] = x"
  by (cases x) simp_all

text \<open>
  C4.  For an item without a kind hint the classifier is a chain of three rules, the first
  with an opinion wins: the content type (lower-cased: holds \<^verbatim>\<open>text/html\<close>, else
  \<^verbatim>\<open>text/css\<close>, else \<^verbatim>\<open>javascript\<close>), then the extension of the URL, then the shape of the
  body.  So a content type with an opinion decides whatever the URL and the body are; an
  extension decides when the content type has none, whatever the body is; the body is
  looked at only when both have none.  The extension is the text after the last dot of the
  URL cut at its first \<^verbatim>\<open>?\<close> and at its first \<^verbatim>\<open>#\<close>, lower-cased.  When no rule has an
  opinion the kind is unknown, the analysis makes no call, and the drain loop leaves the
  request log, the queue and the processed set as they are.
\<close>

theorem classifier_priority:
  "detectResourceKind url ct body
     = first_match [by_content_type ct, inferResourceKindFromUrl url, by_sniffing body]
   \<and> (by_content_type ct = Some k \<longrightarrow> detectResourceKind url ct body = Some k)
   \<and> (by_content_type ct = None \<and> inferResourceKindFromUrl url = Some k
        \<longrightarrow> detectResourceKind url ct body = Some k)
   \<and> (by_content_type ct = None \<and> inferResourceKindFromUrl url = None
        \<longrightarrow> detectResourceKind url ct body = by_sniffing body)
   \<and> (split_first (CHR ''#'') (split_first (CHR ''?'') url) = stem @ CHR ''.'' # ext
        \<and> CHR ''.'' \<notin> set ext
        \<longrightarrow> inferResourceKindFromUrl url = extension_kind (toLowerCase ext))
   \<and> (snd item = None
        \<and> detectResourceKind (fst item) (rc_contentType res) (rc_text res) = None
        \<longrightarrow> analyze_item e opts item res = Returns [])
   \<and> (snd item = None \<and> cache_inv e st \<and> content_of e (fst item) = Some res
        \<and> detectResourceKind (fst item) (rc_contentType res) (rc_text res) = None
        \<longrightarrow> (\<exists>st1. process_item e opts item st = Returns st1 \<and> requests st1 = requests st
                   \<and> pending st1 = pending st \<and> processed st1 = processed st))"
proof -
  note d = detect_first_match[of url ct body]
  have 5: "split_first (CHR ''#'') (split_first (CHR ''?'') url) = stem @ CHR ''.'' # ext
        \<and> CHR ''.'' \<notin> set ext
        \<longrightarrow> inferResourceKindFromUrl url = extension_kind (toLowerCase ext)"
    by (simp add: infer_extension_kind split_pop_ext)
  have 6: "snd item = None
        \<and> detectResourceKind (fst item) (rc_contentType res) (rc_text res) = None
        \<longrightarrow> analyze_item e opts item res = Returns []"
    by (simp add: analyze_item_def)
  have 7: "snd item = None \<and> cache_inv e st \<and> content_of e (fst item) = Some res
        \<and> detectResourceKind (fst item) (rc_contentType res) (rc_text res) = None
        \<longrightarrow> (\<exists>st1. process_item e opts item st = Returns st1 \<and> requests st1 = requests st
                   \<and> pending st1 = pending st \<and> processed st1 = processed st)"
  proof
    assume a: "snd item = None \<and> cache_inv e st \<and> content_of e (fst item) = Some res
        \<and> detectResourceKind (fst item) (rc_contentType res) (rc_text res) = None"
    obtain p s1 where l1: "loadResource e (fst item) st = (p, s1)"
      by (cases "loadResource e (fst item) st")
    from a have c: "cache_inv e st" by simp
    from process_item_expansion[OF c l1, of opts] a
    have "process_item e opts item st = Returns s1"
      by (simp add: expansion_def analyze_item_def and_then_def)
    with loadResource_fields[OF l1]
    show "\<exists>st1. process_item e opts item st = Returns st1 \<and> requests st1 = requests st
                   \<and> pending st1 = pending st \<and> processed st1 = processed st"
      by simp
  qed
  have 2: "by_content_type ct = Some k \<longrightarrow> detectResourceKind url ct body = Some k"
    by (simp add: d)
  have 3: "by_content_type ct = None \<and> inferResourceKindFromUrl url = Some k
        \<longrightarrow> detectResourceKind url ct body = Some k"
    by (simp add: d)
  have 4: "by_content_type ct = None \<and> inferResourceKindFromUrl url = None
        \<longrightarrow> detectResourceKind url ct body = by_sniffing body"
    by (simp add: d)
  from d 2 3 4 5 6 7 show ?thesis by blast
qed

theorem classifier_priority_witness:
  "detectResourceKind example_js_url (Some ''Text/CSS; charset=utf-8'') ''<html>'' = Some K_css
   \<and> detectResourceKind example_js_url None ''<html>'' = Some K_js
   \<and> detectResourceKind example_plain_url None ''  <div>'' = Some K_html
   \<and> analyze_item example_env example_opts (example_plain_url, None)
        \<lparr>rc_text = ''hello'', rc_contentType = None\<rparr> = Returns []"
proof -
  have 1: "by_content_type (Some ''Text/CSS; charset=utf-8'') = Some K_css" by code_simp
  have 2: "by_content_type None = None \<and> inferResourceKindFromUrl example_js_url = Some K_js"
    by code_simp
  have 3: "by_content_type None = None \<and> inferResourceKindFromUrl example_plain_url = None"
    by code_simp
  have s3: "by_sniffing ''  <div>'' = Some K_html" by code_simp
  have 4: "detectResourceKind example_plain_url None ''hello'' = None" by code_simp
  from classifier_priority[where url = example_js_url and ct = "Some ''Text/CSS; charset=utf-8''"
      and body = "''<html>''" and k = K_css] 1
  have a: "detectResourceKind example_js_url (Some ''Text/CSS; charset=utf-8'') ''<html>'' = Some K_css"
    by blast
  from classifier_priority[where url = example_js_url and ct = None
      and body = "''<html>''" and k = K_js] 2
  have b: "detectResourceKind example_js_url None ''<html>'' = Some K_js"
    by blast
  from classifier_priority[where url = example_plain_url and ct = None
      and body = "''  <div>''"] 3 s3
  have c: "detectResourceKind example_plain_url None ''  <div>'' = Some K_html"
    by simp
  from classifier_priority[where item = "(example_plain_url, None)"
      and res = "\<lparr>rc_text = ''hello'', rc_contentType = None\<rparr>"
      and e = example_env and opts = example_opts] 4
  have d: "analyze_item example_env example_opts (example_plain_url, None)
        \<lparr>rc_text = ''hello'', rc_contentType = None\<rparr> = Returns []"
    by simp
  from a b c d show ?thesis by blast
qed

section \<open>Dependency extractors: what the sequences hold\<close>

lemma while_exec_scan:
  assumes len: "0 < min_len r"
  shows "while_exec ic r body acc p s = fold_outcome body (scan_from ic r p s) acc"
proof (induction "length s" arbitrary: s p acc rule: less_induct)
  case less
  show ?case
  proof (cases "search ic r p s")
    case None
    then show ?thesis
      by (simp add: while_exec.simps[of ic r body acc p s] scan_from.simps[of ic r p s])
  next
    case (Some st)
    have "length (m_rest st) + min_len r \<le> length s"
      using search_Some[OF Some, of 0] by blast
    with len have shorter: "length (m_rest st) < length s" by linarith
    show ?thesis
    proof (cases "body (m_caps st) acc")
      case (Returns acc')
      with Some shorter less.hyps[OF shorter, of acc' "m_prev st"] show ?thesis
        by (simp add: while_exec.simps[of ic r body acc p s] scan_from.simps[of ic r p s]
              and_then_def)
    next
      case Throws
      with Some shorter show ?thesis
        by (simp add: while_exec.simps[of ic r body acc p s] scan_from.simps[of ic r p s]
              and_then_def)
    next
      case Spins
      with Some shorter show ?thesis
        by (simp add: while_exec.simps[of ic r body acc p s] scan_from.simps[of ic r p s]
              and_then_def)
    qed
  qed
qed

lemma scan_from_caps:
  "m \<in> set (scan_from ic r p s) \<Longrightarrow> sure_group g r \<Longrightarrow> m g \<noteq> None"
proof (induction "length s" arbitrary: s p rule: less_induct)
  case less
  show ?case
  proof (cases "search ic r p s")
    case None
    with less.prems show ?thesis by (simp add: scan_from.simps[of ic r p s])
  next
    case (Some st)
    from search_Some[OF Some, of g] less.prems(2) have c: "m_caps st g \<noteq> None" by blast
    show ?thesis
    proof (cases "length (m_rest st) < length s")
      case True
      with less.prems(1) Some have "m = m_caps st \<or> m \<in> set (scan_from ic r (m_prev st) (m_rest st))"
        by (simp add: scan_from.simps[of ic r p s])
      with c less.hyps[OF True _ less.prems(2)] show ?thesis by blast
    next
      case False
      with less.prems(1) Some c show ?thesis by (simp add: scan_from.simps[of ic r p s])
    qed
  qed
qed

lemma trim_Nil_iff: "(trim u = []) = list_all is_ws u"
proof
  assume "trim u = []"
  then have "\<forall>c \<in> set (rev (dropWhile is_ws u)). is_ws c"
    by (simp add: trim_def dropWhile_eq_Nil_conv)
  then have all: "\<forall>c \<in> set (dropWhile is_ws u). is_ws c" by simp
  have "dropWhile is_ws u = []"
  proof (rule ccontr)
    assume ne: "dropWhile is_ws u \<noteq> []"
    from hd_dropWhile[OF ne] have "\<not> is_ws (hd (dropWhile is_ws u))" .
    moreover from ne all have "is_ws (hd (dropWhile is_ws u))" by simp
    ultimately show False by simp
  qed
  with dropWhile_eq_Nil_conv[of is_ws u] have "\<forall>x \<in> set u. is_ws x" by blast
  then show "list_all is_ws u" by (simp add: list_all_iff)
next
  assume "list_all is_ws u"
  then have "\<forall>x \<in> set u. is_ws x" by (simp add: list_all_iff)
  with dropWhile_eq_Nil_conv[of is_ws u] have d: "dropWhile is_ws u = []" by blast
  show "trim u = []" unfolding trim_def d by simp
qed

lemma in_dropWhile: "x \<in> set xs \<Longrightarrow> \<not> P x \<Longrightarrow> x \<in> set (dropWhile P xs)"
  by (induction xs) auto

lemma trim_not_blank: "\<not> list_all is_ws u \<Longrightarrow> \<not> list_all is_ws (trim u)"
proof -
  assume "\<not> list_all is_ws u"
  then obtain x where x: "x \<in> set u" "\<not> is_ws x" by (auto simp: list_all_iff)
  then have "x \<in> set (dropWhile is_ws u)" by (rule in_dropWhile)
  then have "x \<in> set (rev (dropWhile is_ws u))" by simp
  from in_dropWhile[of x "rev (dropWhile is_ws u)" is_ws, OF this x(2)]
  have "x \<in> set (dropWhile is_ws (rev (dropWhile is_ws u)))" .
  then have "x \<in> set (trim u)" by (simp add: trim_def)
  with x(2) show ?thesis by (auto simp: list_all_iff)
qed

lemma kept_Nil [simp]: "kept [] = []"
  by (simp add: kept_def)

lemma kept_Cons:
  "kept (m # ms) =
     (case m 2 of None \<Rightarrow> [] | Some u \<Rightarrow> if list_all is_ws u then [] else [trim u]) @ kept ms"
  by (simp add: kept_def)

lemma fold_push_trimmed:
  "\<forall>m \<in> set ms. m 2 \<noteq> None \<Longrightarrow> fold_outcome push_trimmed ms acc = Returns (acc @ kept ms)"
proof (induction ms arbitrary: acc)
  case Nil
  then show ?case by simp
next
  case (Cons m ms)
  then obtain u where u: "m 2 = Some u" by auto
  from Cons have ih: "\<And>acc. fold_outcome push_trimmed ms acc = Returns (acc @ kept ms)" by simp
  have "push_trimmed m acc = Returns (acc @ (if list_all is_ws u then [] else [trim u]))"
    using u trim_Nil_iff[of u] by (simp add: push_trimmed_def)
  then show ?case
    using u by (simp add: and_then_def ih kept_Cons)
qed

lemma fold_add_group1:
  "fold_outcome add_group1 ms acc = Returns (fold set_add (group1 ms) acc)"
  by (induction ms arbitrary: acc) (simp_all add: add_group1_def and_then_def group1_def)

lemma set_fold_set_add: "set (fold set_add xs acc) = set acc \<union> set xs"
  by (induction xs arbitrary: acc) (auto simp: set_add_def)

lemma distinct_fold_set_add: "distinct acc \<Longrightarrow> distinct (fold set_add xs acc)"
  by (induction xs arbitrary: acc) (auto simp: set_add_def)

lemma distinct_dedup: "distinct (dedup xs)"
  by (simp add: dedup_def distinct_fold_set_add)

lemma dedup_first_occurrences: "dedup xs = rev (remdups (rev xs))"
proof (induction xs rule: rev_induct)
  case Nil
  then show ?case by (simp add: dedup_def)
next
  case (snoc x xs)
  have "dedup (xs @ [x]) = set_add x (dedup xs)" by (simp add: dedup_def)
  moreover have "set (dedup xs) = set xs" by (simp add: dedup_def set_fold_set_add)
  ultimately show ?case using snoc by (simp add: set_add_def)
qed

lemma extractCssDependencies_eq:
  "extractCssDependencies c =
     Returns \<lparr>css_imports = kept (scan_from True cssImportPattern None c),
              css_urls = kept (scan_from True urlPattern None c)\<rparr>"
proof -
  have u: "0 < min_len urlPattern" "sure_group 2 urlPattern"
    by (simp_all add: urlPattern_def min_len_seqs min_len_lit sure_group_seqs)
  have i: "0 < min_len cssImportPattern" "sure_group 2 cssImportPattern"
    by (simp_all add: cssImportPattern_def min_len_seqs min_len_lit sure_group_seqs)
  have "while_exec True urlPattern push_trimmed [] None c
          = Returns (kept (scan_from True urlPattern None c))"
    using fold_push_trimmed[of "scan_from True urlPattern None c" "[]"] scan_from_caps[OF _ u(2)]
    by (simp add: while_exec_scan[OF u(1)])
  moreover have "while_exec True cssImportPattern push_trimmed [] None c
          = Returns (kept (scan_from True cssImportPattern None c))"
    using fold_push_trimmed[of "scan_from True cssImportPattern None c" "[]"]
      scan_from_caps[OF _ i(2)]
    by (simp add: while_exec_scan[OF i(1)])
  ultimately show ?thesis by (simp add: extractCssDependencies_def)
qed

lemma extractJsDependencies_eq:
  "extractJsDependencies t =
     Returns \<lparr>js_imports = dedup (group1 (scan_from False jsImportPattern None t)
                                  @ group1 (scan_from False dynamicImportPattern None t)),
              js_importScripts = dedup (group1 (scan_from False importScriptsPattern None t)),
              js_fetches = dedup (group1 (scan_from False fetchPattern None t)),
              js_xhrs = dedup (group1 (scan_from False xhrPattern None t))\<rparr>"
proof -
  have 1: "0 < min_len jsImportPattern"
    by (simp add: jsImportPattern_def min_len_seqs min_len_lit)
  have 2: "0 < min_len dynamicImportPattern"
    by (simp add: dynamicImportPattern_def min_len_seqs min_len_lit)
  have 3: "0 < min_len importScriptsPattern"
    by (simp add: importScriptsPattern_def min_len_seqs min_len_lit)
  have 4: "0 < min_len fetchPattern"
    by (simp add: fetchPattern_def min_len_seqs min_len_lit)
  have 5: "0 < min_len xhrPattern"
    by (simp add: xhrPattern_def min_len_seqs min_len_lit)
  show ?thesis
    by (simp add: extractJsDependencies_def and_then_def while_exec_scan[OF 1]
          while_exec_scan[OF 2] while_exec_scan[OF 3] while_exec_scan[OF 4]
          while_exec_scan[OF 5] fold_add_group1 dedup_def)
qed

lemma kept_not_blank: "list_all (\<lambda>u. u \<noteq> [] \<and> \<not> list_all is_ws u) (kept ms)"
proof (induction ms)
  case Nil
  then show ?case by simp
next
  case (Cons m ms)
  show ?case
  proof (cases "m 2")
    case None
    with Cons show ?thesis by (simp add: kept_Cons)
  next
    case (Some u)
    show ?thesis
    proof (cases "list_all is_ws u")
      case True
      with Some Cons show ?thesis by (simp add: kept_Cons)
    next
      case False
      from trim_not_blank[OF False] have nb: "\<not> list_all is_ws (trim u)" .
      then have "trim u \<noteq> []" by auto
      with nb False Some Cons show ?thesis by (simp add: kept_Cons)
    qed
  qed
qed

text \<open>
  C6, as the claim states it, fails on the CSS extractor: it pushes every match on an array,
  so a reference that occurs twice is listed twice.
\<close>

theorem css_urls_not_deduplicated:
  "\<exists>d. extractCssDependencies ''url(a) url(a)'' = Returns d
       \<and> css_urls d = [''a'', ''a''] \<and> \<not> distinct (css_urls d)"
proof -
  have "extractCssDependencies ''url(a) url(a)''
          = Returns \<lparr>css_imports = [], css_urls = [''a'', ''a'']\<rparr>"
    by code_simp
  then show ?thesis by simp
qed

text \<open>
  The \<^verbatim>\<open>imports\<close> set of the script extractor is filled by the scan for static imports and
  then by the scan for dynamic imports: a dynamic import that comes first in the text comes
  after the static ones in the sequence.
\<close>

lemma js_imports_not_in_text_order:
  "\<exists>d. extractJsDependencies ''import(\"a.js\"); import \"b.js\";'' = Returns d
       \<and> js_imports d = [Some ''b.js'', Some ''a.js'']"
proof -
  have "extractJsDependencies ''import(\"a.js\"); import \"b.js\";''
          = Returns \<lparr>js_imports = [Some ''b.js'', Some ''a.js''], js_importScripts = [],
                     js_fetches = [], js_xhrs = []\<rparr>"
    by code_simp
  then show ?thesis by simp
qed

text \<open>
  C6, amended.  The script extractor returns, and each of its four sequences is free of
  duplicates: it holds the first groups of the matches of its scan (for \<^verbatim>\<open>imports\<close>: of the
  scan for static imports followed by the scan for dynamic imports), each at the place of
  its first occurrence there.  The CSS extractor returns, and each of its two sequences
  holds what is kept of every match of its scan, in the order of the text, a reference as
  often as it occurs.
\<close>

theorem extractors_deduplication:
  "(\<exists>d. extractJsDependencies t = Returns d
        \<and> distinct (js_imports d) \<and> distinct (js_importScripts d)
        \<and> distinct (js_fetches d) \<and> distinct (js_xhrs d)
        \<and> js_imports d = dedup (group1 (scan_from False jsImportPattern None t)
                                  @ group1 (scan_from False dynamicImportPattern None t))
        \<and> js_importScripts d = dedup (group1 (scan_from False importScriptsPattern None t))
        \<and> js_fetches d = dedup (group1 (scan_from False fetchPattern None t))
        \<and> js_xhrs d = dedup (group1 (scan_from False xhrPattern None t)))
   \<and> (\<exists>d. extractCssDependencies c = Returns d
        \<and> css_imports d = kept (scan_from True cssImportPattern None c)
        \<and> css_urls d = kept (scan_from True urlPattern None c))
   \<and> dedup xs = rev (remdups (rev xs))"
  by (simp add: extractJsDependencies_eq extractCssDependencies_eq distinct_dedup
        dedup_first_occurrences[symmetric])

theorem extractors_deduplication_witness:
  "\<exists>d. extractJsDependencies example_js_input = Returns d
       \<and> distinct (js_fetches d) \<and> js_fetches d = [Some ''/a'', Some ''/b'']"
proof -
  from extractors_deduplication[of example_js_input "[]" "[]"]
  obtain d where d: "extractJsDependencies example_js_input = Returns d"
    and dist: "distinct (js_fetches d)"
    by blast
  have "extractJsDependencies example_js_input
          = Returns \<lparr>js_imports = [], js_importScripts = [],
                     js_fetches = [Some ''/a'', Some ''/b''], js_xhrs = []\<rparr>"
    by code_simp
  with d dist show ?thesis by auto
qed

text \<open>
  C7, as the claim states it, fails: the scan for \<^verbatim>\<open>url(...)\<close> does not leave out the
  \<^verbatim>\<open>url(...)\<close> of an \<^verbatim>\<open>@import\<close>, so such a target is in both sequences.
\<close>

theorem css_import_target_in_urls:
  "\<exists>d. extractCssDependencies ''@import url(a.css);'' = Returns d
       \<and> css_imports d = [''a.css''] \<and> css_urls d = [''a.css'']
       \<and> set (css_imports d) \<inter> set (css_urls d) \<noteq> {}"
proof -
  have "extractCssDependencies ''@import url(a.css);''
          = Returns \<lparr>css_imports = [''a.css''], css_urls = [''a.css'']\<rparr>"
    by code_simp
  then show ?thesis by simp
qed

text \<open>
  C7, amended.  The CSS extractor returns; \<^verbatim>\<open>imports\<close> holds what is kept of every match of
  the \<^verbatim>\<open>@import\<close> pattern (with or without a \<^verbatim>\<open>url(\<close> wrapper), \<^verbatim>\<open>urls\<close> what is kept of every
  match of the \<^verbatim>\<open>url(...)\<close> pattern, those of an \<^verbatim>\<open>@import\<close> among them; a capture that is
  empty or all white space is kept in neither, so no member of either sequence is.
\<close>

theorem css_categories:
  "\<exists>d. extractCssDependencies c = Returns d
       \<and> css_imports d = kept (scan_from True cssImportPattern None c)
       \<and> css_urls d = kept (scan_from True urlPattern None c)
       \<and> list_all (\<lambda>u. u \<noteq> [] \<and> \<not> list_all is_ws u) (css_imports d @ css_urls d)"
  using kept_not_blank[of "scan_from True cssImportPattern None c"]
    kept_not_blank[of "scan_from True urlPattern None c"]
  by (simp add: extractCssDependencies_eq)

theorem css_categories_witness:
  "\<exists>d. extractCssDependencies example_css_text = Returns d
       \<and> css_imports d = [''b.css''] \<and> css_urls d = [''c.png'']
       \<and> list_all (\<lambda>u. u \<noteq> [] \<and> \<not> list_all is_ws u) (css_imports d @ css_urls d)"
proof -
  from css_categories[of example_css_text]
  obtain d where d: "extractCssDependencies example_css_text = Returns d"
    and nb: "list_all (\<lambda>u. u \<noteq> [] \<and> \<not> list_all is_ws u) (css_imports d @ css_urls d)"
    by blast
  have "extractCssDependencies example_css_text
          = Returns \<lparr>css_imports = [''b.css''], css_urls = [''c.png'']\<rparr>"
    by code_simp
  with d nb show ?thesis by auto
qed

section \<open>Markup analyzer: icon links\<close>

lemma harvest_link:
  assumes "harvest e b els = Returns cs" and "el \<in> set els"
    and "has_tag ''link'' el" and "has_attr ''rel'' el"
  shows "set (link_calls e b el) \<subseteq> set cs"
proof -
  let ?links = "concat (map (link_calls e b)
                  (filter (\<lambda>el. has_tag ''link'' el \<and> has_attr ''rel'' el) els))"
  have "set ?links \<subseteq> set cs"
    by (rule collect_member[OF assms(1)[unfolded harvest_def in_order_def],
          where x = "Returns ?links"]) simp_all
  with assms(2-4) show ?thesis by auto
qed




section \<open>Non-fetchable schemes: logged, never queued\<close>

lemma for_resolved_member:
  assumes "ref \<in> set urls" and "truthy (resolveUrl e b ref) = Some r"
  shows "set (body r) \<subseteq> set (for_resolved e b urls body)"
  using assms by (force simp: for_resolved_def)

lemma for_resolved_js_member:
  assumes "Some ref \<in> set urls" and "truthy (resolveUrl e b ref) = Some r"
  shows "set (body r) \<subseteq> set (for_resolved_js e b urls body)"
  using assms by (force simp: for_resolved_js_def)

lemma recordCssUrls_records:
  assumes d: "extractCssDependencies css = Returns d"
    and ref: "ref \<in> set (css_imports d) \<union> set (css_urls d)"
    and r: "truthy (resolveUrl e b ref) = Some url"
  shows "\<exists>cs. recordCssUrls e css b = Returns cs \<and> RecordUrl url S_css None \<in> set cs"
proof -
  from ref have "RecordUrl url S_css None
      \<in> set (for_resolved e b (css_imports d)
                (\<lambda>resolved. [RecordUrl resolved S_css None, Enqueue resolved (Some K_css)]))
        \<union> set (for_resolved e b (css_urls d) (\<lambda>resolved. [RecordUrl resolved S_css None]))"
  proof
    assume "ref \<in> set (css_imports d)"
    from for_resolved_member[OF this r,
        of "\<lambda>resolved. [RecordUrl resolved S_css None, Enqueue resolved (Some K_css)]"]
    show ?thesis by simp
  next
    assume "ref \<in> set (css_urls d)"
    from for_resolved_member[OF this r, of "\<lambda>resolved. [RecordUrl resolved S_css None]"]
    show ?thesis by simp
  qed
  then show ?thesis by (simp add: recordCssUrls_def d and_then_def)
qed

lemma analyzeJs_records:
  assumes d: "extractJsDependencies js = Returns d"
    and r: "truthy (resolveUrl e b ref) = Some url"
    and ref: "Some ref \<in> set (js_imports d) \<union> set (js_importScripts d) \<and> source = S_resource
              \<or> Some ref \<in> set (js_fetches d) \<and> source = S_fetch
              \<or> Some ref \<in> set (js_xhrs d) \<and> source = S_xhr"
  shows "\<exists>cs. analyzeJs e js b = Returns cs \<and> RecordUrl url source None \<in> set cs"
proof -
  let ?imports = "for_resolved_js e b (js_imports d)
            (\<lambda>resolved.
               [RecordUrl resolved S_resource None,
                Enqueue resolved
                  (case inferResourceKindFromUrl resolved of
                     Some k \<Rightarrow> Some k | None \<Rightarrow> Some K_js)])"
  let ?scripts = "for_resolved_js e b (js_importScripts d)
            (\<lambda>resolved. [RecordUrl resolved S_resource None, Enqueue resolved (Some K_js)])"
  let ?fetches = "for_resolved_js e b (js_fetches d)
            (\<lambda>resolved.
               [RecordUrl resolved S_fetch None,
                Enqueue resolved (inferResourceKindFromUrl resolved)])"
  let ?xhrs = "for_resolved_js e b (js_xhrs d)
            (\<lambda>resolved.
               [RecordUrl resolved S_xhr None,
                Enqueue resolved (inferResourceKindFromUrl resolved)])"
  have cs: "analyzeJs e js b = Returns (?imports @ ?scripts @ ?fetches @ ?xhrs)"
    by (simp add: analyzeJs_def d and_then_def)
  from ref consider
      (i) "Some ref \<in> set (js_imports d)" "source = S_resource"
    | (s) "Some ref \<in> set (js_importScripts d)" "source = S_resource"
    | (f) "Some ref \<in> set (js_fetches d)" "source = S_fetch"
    | (x) "Some ref \<in> set (js_xhrs d)" "source = S_xhr"
    by blast
  then have "RecordUrl url source None \<in> set (?imports @ ?scripts @ ?fetches @ ?xhrs)"
  proof cases
    case i
    from for_resolved_js_member[OF i(1) r] i(2) have "RecordUrl url source None \<in> set ?imports"
      by force
    then show ?thesis by simp
  next
    case s
    from for_resolved_js_member[OF s(1) r] s(2) have "RecordUrl url source None \<in> set ?scripts"
      by force
    then show ?thesis by simp
  next
    case f
    from for_resolved_js_member[OF f(1) r] f(2) have "RecordUrl url source None \<in> set ?fetches"
      by force
    then show ?thesis by simp
  next
    case x
    from for_resolved_js_member[OF x(1) r] x(2) have "RecordUrl url source None \<in> set ?xhrs"
      by force
    then show ?thesis by simp
  qed
  with cs show ?thesis by blast
qed

lemma interceptor_records:
  assumes "truthy (resolveUrl e (ic_referrer i) (ic_url i)) = Some url"
  shows "RecordUrl url (case ic_source i of None \<Rightarrow> S_unknown | Some s \<Rightarrow> s) None
           \<in> set (interceptor e r i)"
  using assms by (simp add: interceptor_def Let_def)

lemma parseSrcsetUrls_Nil: "parseSrcsetUrls [] = []"
  by code_simp

lemma record_attr_records:
  "getAttribute el a = Some url \<Longrightarrow> url \<noteq> [] \<Longrightarrow> record_attr b a el = [RecordUrl url S_resource b]"
  by (simp add: record_attr_def truthy_def)

lemma record_srcset_records:
  assumes "getAttribute el a = Some v" and "url \<in> set (parseSrcsetUrls v)"
  shows "RecordUrl url source b \<in> set (record_srcset source b a el)"
proof -
  from assms(2) have "v \<noteq> []" using parseSrcsetUrls_Nil by auto
  with assms show ?thesis by (auto simp: record_srcset_def truthy_def)
qed

lemma harvest_loop:
  assumes "harvest e b els = Returns cs" and "el \<in> set els"
  shows "has_tag ''img'' el \<Longrightarrow> el_html el \<Longrightarrow> el_src el \<noteq> []
           \<Longrightarrow> RecordUrl (el_src el) S_img None \<in> set cs"
    and "has_tag ''img'' el \<Longrightarrow> has_attr ''srcset'' el \<Longrightarrow> el_html el
           \<Longrightarrow> set (record_srcset S_img b ''srcset'' el) \<subseteq> set cs"
    and "has_tag ''source'' el \<Longrightarrow> has_attr ''src'' el
           \<Longrightarrow> set (record_attr b ''src'' el) \<subseteq> set cs"
    and "has_tag ''source'' el \<Longrightarrow> has_attr ''srcset'' el
           \<Longrightarrow> set (record_srcset S_resource b ''srcset'' el) \<subseteq> set cs"
    and "has_tag ''script'' el \<Longrightarrow> has_attr ''src'' el \<Longrightarrow> el_html el \<Longrightarrow> el_src el \<noteq> []
           \<Longrightarrow> RecordUrl (el_src el) S_resource None \<in> set cs"
    and "has_tag ''iframe'' el \<Longrightarrow> has_attr ''src'' el \<Longrightarrow> el_html el \<Longrightarrow> el_src el \<noteq> []
           \<Longrightarrow> RecordUrl (el_src el) S_resource None \<in> set cs"
    and "has_tag ''video'' el \<or> has_tag ''audio'' el \<Longrightarrow> has_attr ''src'' el
           \<Longrightarrow> set (record_attr b ''src'' el) \<subseteq> set cs"
    and "has_tag ''video'' el \<Longrightarrow> has_attr ''poster'' el
           \<Longrightarrow> set (record_attr b ''poster'' el) \<subseteq> set cs"
    and "has_tag ''track'' el \<Longrightarrow> has_attr ''src'' el
           \<Longrightarrow> set (record_attr b ''src'' el) \<subseteq> set cs"
    and "has_tag ''embed'' el \<Longrightarrow> has_attr ''src'' el
           \<Longrightarrow> set (record_attr b ''src'' el) \<subseteq> set cs"
    and "has_tag ''object'' el \<Longrightarrow> has_attr ''data'' el
           \<Longrightarrow> set (record_attr b ''data'' el) \<subseteq> set cs"
proof -
  note h = assms(1)[unfolded harvest_def in_order_def]
  {
    fix body :: "element \<Rightarrow> call list" and sel :: "element \<Rightarrow> bool"
    assume loop: "Returns (concat (map body (filter sel els))) \<in> set
       [Returns (concat (map (\<lambda>img. if el_html img \<and> el_src img \<noteq> []
                                   then [RecordUrl (el_src img) S_img None] else [])
                          (filter (has_tag ''img'') els))),
        Returns (concat (map (\<lambda>img. if \<not> el_html img then []
                                   else record_srcset S_img b ''srcset'' img)
                          (filter (\<lambda>el. has_tag ''img'' el \<and> has_attr ''srcset'' el) els))),
        Returns (concat (map (record_attr b ''src'')
                          (filter (\<lambda>el. has_tag ''source'' el \<and> has_attr ''src'' el) els))),
        Returns (concat (map (record_srcset S_resource b ''srcset'')
                          (filter (\<lambda>el. has_tag ''source'' el \<and> has_attr ''srcset'' el) els))),
        Returns (concat (map (\<lambda>script. if el_html script \<and> el_src script \<noteq> []
                                      then [RecordUrl (el_src script) S_resource None,
                                            Enqueue (el_src script) (Some K_js)]
                                      else [])
                          (filter (\<lambda>el. has_tag ''script'' el \<and> has_attr ''src'' el) els))),
        Returns (concat (map (\<lambda>iframe. if el_html iframe \<and> el_src iframe \<noteq> []
                                      then [RecordUrl (el_src iframe) S_resource None,
                                            Enqueue (el_src iframe) (Some K_html)]
                                      else [])
                          (filter (\<lambda>el. has_tag ''iframe'' el \<and> has_attr ''src'' el) els))),
        Returns (concat (map (record_attr b ''src'')
                          (filter (\<lambda>el. (has_tag ''video'' el \<or> has_tag ''audio'' el)
                                         \<and> has_attr ''src'' el) els))),
        Returns (concat (map (record_attr b ''poster'')
                          (filter (\<lambda>el. has_tag ''video'' el \<and> has_attr ''poster'' el) els))),
        Returns (concat (map (record_attr b ''src'')
                          (filter (\<lambda>el. has_tag ''track'' el \<and> has_attr ''src'' el) els))),
        Returns (concat (map (record_attr b ''src'')
                          (filter (\<lambda>el. has_tag ''embed'' el \<and> has_attr ''src'' el) els))),
        Returns (concat (map (record_attr b ''data'')
                          (filter (\<lambda>el. has_tag ''object'' el \<and> has_attr ''data'' el) els))),
        collect (\<lambda>el. case truthy (getAttribute el ''style'') of
                        None \<Rightarrow> Returns []
                      | Some cssText \<Rightarrow> recordCssUrls e cssText b)
          (filter (has_attr ''style'') els),
        collect (\<lambda>el. if el_textContent el \<noteq> []
                      then recordCssUrls e (el_textContent el) b else Returns [])
          (filter (has_tag ''style'') els),
        Returns (concat (map (link_calls e b)
                          (filter (\<lambda>el. has_tag ''link'' el \<and> has_attr ''rel'' el) els)))]"
      and sel: "sel el"
    have "set (concat (map body (filter sel els))) \<subseteq> set cs"
      by (rule collect_member[OF h loop]) simp
    with sel assms(2) have "set (body el) \<subseteq> set cs" by auto
  }
  note loop = this
  show "has_tag ''img'' el \<Longrightarrow> el_html el \<Longrightarrow> el_src el \<noteq> []
           \<Longrightarrow> RecordUrl (el_src el) S_img None \<in> set cs"
    using loop[of "\<lambda>img. if el_html img \<and> el_src img \<noteq> []
                        then [RecordUrl (el_src img) S_img None] else []" "has_tag ''img''"]
    by simp
  show "has_tag ''img'' el \<Longrightarrow> has_attr ''srcset'' el \<Longrightarrow> el_html el
           \<Longrightarrow> set (record_srcset S_img b ''srcset'' el) \<subseteq> set cs"
    using loop[of "\<lambda>img. if \<not> el_html img then [] else record_srcset S_img b ''srcset'' img"
                  "\<lambda>el. has_tag ''img'' el \<and> has_attr ''srcset'' el"]
    by simp
  show "has_tag ''source'' el \<Longrightarrow> has_attr ''src'' el
           \<Longrightarrow> set (record_attr b ''src'' el) \<subseteq> set cs"
    using loop[of "record_attr b ''src''" "\<lambda>el. has_tag ''source'' el \<and> has_attr ''src'' el"]
    by simp
  show "has_tag ''source'' el \<Longrightarrow> has_attr ''srcset'' el
           \<Longrightarrow> set (record_srcset S_resource b ''srcset'' el) \<subseteq> set cs"
    using loop[of "record_srcset S_resource b ''srcset''"
                  "\<lambda>el. has_tag ''source'' el \<and> has_attr ''srcset'' el"]
    by simp
  show "has_tag ''script'' el \<Longrightarrow> has_attr ''src'' el \<Longrightarrow> el_html el \<Longrightarrow> el_src el \<noteq> []
           \<Longrightarrow> RecordUrl (el_src el) S_resource None \<in> set cs"
    using loop[of "\<lambda>script. if el_html script \<and> el_src script \<noteq> []
                           then [RecordUrl (el_src script) S_resource None,
                                 Enqueue (el_src script) (Some K_js)]
                           else []" "\<lambda>el. has_tag ''script'' el \<and> has_attr ''src'' el"]
    by simp
  show "has_tag ''iframe'' el \<Longrightarrow> has_attr ''src'' el \<Longrightarrow> el_html el \<Longrightarrow> el_src el \<noteq> []
           \<Longrightarrow> RecordUrl (el_src el) S_resource None \<in> set cs"
    using loop[of "\<lambda>iframe. if el_html iframe \<and> el_src iframe \<noteq> []
                           then [RecordUrl (el_src iframe) S_resource None,
                                 Enqueue (el_src iframe) (Some K_html)]
                           else []" "\<lambda>el. has_tag ''iframe'' el \<and> has_attr ''src'' el"]
    by simp
  show "has_tag ''video'' el \<or> has_tag ''audio'' el \<Longrightarrow> has_attr ''src'' el
           \<Longrightarrow> set (record_attr b ''src'' el) \<subseteq> set cs"
    using loop[of "record_attr b ''src''"
                  "\<lambda>el. (has_tag ''video'' el \<or> has_tag ''audio'' el) \<and> has_attr ''src'' el"]
    by simp
  show "has_tag ''video'' el \<Longrightarrow> has_attr ''poster'' el
           \<Longrightarrow> set (record_attr b ''poster'' el) \<subseteq> set cs"
    using loop[of "record_attr b ''poster''" "\<lambda>el. has_tag ''video'' el \<and> has_attr ''poster'' el"]
    by simp
  show "has_tag ''track'' el \<Longrightarrow> has_attr ''src'' el
           \<Longrightarrow> set (record_attr b ''src'' el) \<subseteq> set cs"
    using loop[of "record_attr b ''src''" "\<lambda>el. has_tag ''track'' el \<and> has_attr ''src'' el"]
    by simp
  show "has_tag ''embed'' el \<Longrightarrow> has_attr ''src'' el
           \<Longrightarrow> set (record_attr b ''src'' el) \<subseteq> set cs"
    using loop[of "record_attr b ''src''" "\<lambda>el. has_tag ''embed'' el \<and> has_attr ''src'' el"]
    by simp
  show "has_tag ''object'' el \<Longrightarrow> has_attr ''data'' el
           \<Longrightarrow> set (record_attr b ''data'' el) \<subseteq> set cs"
    using loop[of "record_attr b ''data''" "\<lambda>el. has_tag ''object'' el \<and> has_attr ''data'' el"]
    by simp
qed

lemma collect_each_returns:
  "collect f xs = Returns cs \<Longrightarrow> x \<in> set xs \<Longrightarrow> \<exists>c. f x = Returns c"
proof (induction xs arbitrary: cs)
  case Nil then show ?case by simp
next
  case (Cons y ys)
  from Cons.prems(1) obtain c1 d where y: "f y = Returns c1" and ys: "collect f ys = Returns d"
    by (auto simp: and_then_def split: outcome.splits)
  from Cons.prems(2) y Cons.IH[OF ys] show ?case by auto
qed

lemma harvest_styles:
  assumes h: "harvest e b els = Returns cs" and el: "el \<in> set els"
    and css: "recordCssUrls e css b = Returns cs'" and ne: "css \<noteq> []"
  shows "getAttribute el ''style'' = Some css \<Longrightarrow> set cs' \<subseteq> set cs"
    and "has_tag ''style'' el \<Longrightarrow> el_textContent el = css \<Longrightarrow> set cs' \<subseteq> set cs"
proof -
  note h' = h[unfolded harvest_def in_order_def]
  let ?attr = "\<lambda>el. case truthy (getAttribute el ''style'') of
                        None \<Rightarrow> Returns []
                      | Some cssText \<Rightarrow> recordCssUrls e cssText b"
  let ?elem = "\<lambda>el. if el_textContent el \<noteq> []
                      then recordCssUrls e (el_textContent el) b else Returns []"
  obtain c1 where c1: "collect ?attr (filter (has_attr ''style'') els) = Returns c1"
    using collect_each_returns[OF h', of "collect ?attr (filter (has_attr ''style'') els)"]
    by auto
  obtain c2 where c2: "collect ?elem (filter (has_tag ''style'') els) = Returns c2"
    using collect_each_returns[OF h', of "collect ?elem (filter (has_tag ''style'') els)"]
    by auto
  have s1: "set c1 \<subseteq> set cs"
    by (rule collect_member[OF h', where x = "collect ?attr (filter (has_attr ''style'') els)"])
       (simp_all add: c1)
  have s2: "set c2 \<subseteq> set cs"
    by (rule collect_member[OF h', where x = "collect ?elem (filter (has_tag ''style'') els)"])
       (simp_all add: c2)
  show "getAttribute el ''style'' = Some css \<Longrightarrow> set cs' \<subseteq> set cs"
  proof -
    assume a: "getAttribute el ''style'' = Some css"
    then have "el \<in> set (filter (has_attr ''style'') els)" using el by (simp add: has_attr_def)
    moreover from a ne css have "?attr el = Returns cs'" by (simp add: truthy_def)
    ultimately have "set cs' \<subseteq> set c1" by (rule collect_member[OF c1])
    with s1 show ?thesis by blast
  qed
  show "has_tag ''style'' el \<Longrightarrow> el_textContent el = css \<Longrightarrow> set cs' \<subseteq> set cs"
  proof -
    assume a: "has_tag ''style'' el" "el_textContent el = css"
    then have "el \<in> set (filter (has_tag ''style'') els)" using el by simp
    moreover from a ne css have "?elem el = Returns cs'" by simp
    ultimately have "set cs' \<subseteq> set c2" by (rule collect_member[OF c2])
    with s2 show ?thesis by blast
  qed
qed

lemma link_calls_records_href:
  assumes "el_html link" and "getAttribute link ''rel'' = Some rel"
    and "shouldInterceptLinkRel rel"
    and "(case getAttribute link ''href'' of None \<Rightarrow> el_href link | Some v \<Rightarrow> v) = href"
    and "href \<noteq> []"
  shows "RecordUrl (case resolveUrl e b href of None \<Rightarrow> href | Some r \<Rightarrow> r) S_resource None
           \<in> set (link_calls e b link)"
  using assms by (simp add: link_calls_def Let_def)

lemma link_calls_records_srcset:
  assumes "el_html link" and "getAttribute link ''rel'' = Some rel"
    and "str_includes (toLowerCase rel) ''preload''"
    and "getAttribute link ''imagesrcset'' = Some v" and "url \<in> set (parseSrcsetUrls v)"
  shows "RecordUrl url S_resource b \<in> set (link_calls e b link)"
  using assms record_srcset_records[of link "''imagesrcset''" v url S_resource b]
  by (simp add: link_calls_def Let_def)

lemma analyzeHtml_calls:
  assumes "analyzeHtml e opts html b ct = Returns (cs, t)"
  shows "\<exists>dm hs. env_jsdom e html b (settle_of opts) = Some dm
           \<and> harvest e b (dom_elements dm) = Returns hs \<and> set hs \<subseteq> set cs
           \<and> (\<forall>i \<in> set (dom_parse_intercepts dm) \<union> set (dom_settle_intercepts dm).
                 set (interceptor e (recursive_of opts) i) \<subseteq> set cs)"
proof (cases "env_jsdom e html b (settle_of opts)")
  case None
  with assms show ?thesis by (simp add: analyzeHtml_def)
next
  case (Some dm)
  from harvest_returns[of e b "dom_elements dm"] obtain hs
    where hs: "harvest e b (dom_elements dm) = Returns hs" by blast
  from assms Some hs
  have cs: "cs = concat (map (interceptor e (recursive_of opts)) (dom_parse_intercepts dm))
               @ hs
               @ concat (map (interceptor e (recursive_of opts)) (dom_settle_intercepts dm))"
    by (simp add: analyzeHtml_def and_then_def)
  have "set hs \<subseteq> set cs" by (auto simp: cs)
  moreover have "\<forall>i \<in> set (dom_parse_intercepts dm) \<union> set (dom_settle_intercepts dm).
                 set (interceptor e (recursive_of opts) i) \<subseteq> set cs"
    by (auto simp: cs)
  ultimately show ?thesis using Some hs by blast
qed

lemma run_calls_logs:
  "RecordUrl u s b \<in> set cs \<Longrightarrow> truthy (resolveUrl e b u) = Some v
     \<Longrightarrow> (v, s) \<in> set (map untimed (requests (run_calls e r cs st)))"
proof (induction cs arbitrary: st)
  case Nil then show ?case by simp
next
  case (Cons c cs)
  show ?case
  proof (cases "c = RecordUrl u s b")
    case True
    have "(v, s) \<in> set (map untimed (requests (exec_call e r c st)))"
      using Cons.prems(2) by (simp add: True recordUrl_requests)
    moreover have "set (requests (exec_call e r c st))
                     \<subseteq> set (requests (run_calls e r cs (exec_call e r c st)))"
      using prefix_run_calls[of "exec_call e r c st" e r cs] by (rule set_mono_prefix)
    ultimately show ?thesis by auto
  next
    case False
    with Cons.prems(1) have "RecordUrl u s b \<in> set cs" by simp
    from Cons.IH[OF this Cons.prems(2)] show ?thesis by simp
  qed
qed

lemma run_logs:
  assumes "analyze_input e opts input = Returns (cs, t)"
    and "RecordUrl u s b \<in> set cs" and "truthy (resolveUrl e b u) = Some v"
    and "run e opts input = Some (Returns res)"
  shows "(v, s) \<in> set (map untimed (res_requests res))"
proof -
  let ?s = "run_calls e (recursive_of opts) cs init_state"
  from assms(1,4) obtain st' where pp: "processPending e opts ?s = Some (Returns st')"
    and res: "res_requests res = requests st'"
    by (auto simp: run_def split: option.splits outcome.splits)
  from run_calls_logs[OF assms(2,3)] have "(v, s) \<in> set (map untimed (requests ?s))" .
  moreover from prefix_processPending[OF pp] have "set (requests ?s) \<subseteq> set (requests st')"
    by (rule set_mono_prefix)
  ultimately show ?thesis using res by auto
qed

lemma process_item_logs:
  assumes "cache_inv e st" and "expansion e opts item = Returns cs"
    and "RecordUrl u s b \<in> set cs" and "truthy (resolveUrl e b u) = Some v"
    and "process_item e opts item st = Returns st1"
  shows "(v, s) \<in> set (map untimed (requests st1))"
proof -
  obtain p s1 where l1: "loadResource e (fst item) st = (p, s1)"
    by (cases "loadResource e (fst item) st")
  from process_item_expansion[OF assms(1) l1, of opts] assms(2,5)
  have "st1 = run_calls e (recursive_of opts) cs s1" by (simp add: and_then_def)
  with run_calls_logs[OF assms(3,4)] show ?thesis by simp
qed

lemma run_skippable_example:
  "run example_env example_opts example_skippable_css
     = Some (Returns \<lparr>res_title = None, res_capturedAt = ''2026-01-01T00:00:00.000Z'',
          res_requests = [\<lparr>rr_url = example_data_url, rr_source = S_css, rr_timestamp = 0\<rparr>]\<rparr>)"
  by code_simp

text \<open>
  C3.  Let the lower-cased text of a URL start with \<^verbatim>\<open>data:\<close>, \<^verbatim>\<open>javascript:\<close> or
  \<^verbatim>\<open>about:\<close>.  It is never queued: \<^verbatim>\<open>enqueue\<close> changes nothing for it; from a state with no
  such URL in the queue or the processed set, no sequence of closure calls and no drain puts
  it there.  It is recorded wherever an analyzer discovers it: \<^verbatim>\<open>resolveUrl\<close> of it is never
  absent, and a \<^verbatim>\<open>recordUrl\<close> followed by an \<^verbatim>\<open>enqueue\<close> appends its record to the request log
  and does nothing else.  Each analyzer calls \<^verbatim>\<open>recordUrl\<close> for it, whatever its scheme:
  \<^verbatim>\<open>recordCssUrls\<close> when it is what an import or a \<^verbatim>\<open>url(...)\<close> of the style sheet resolves to;
  \<^verbatim>\<open>analyzeJs\<close> when it is what an import, an \<^verbatim>\<open>importScripts\<close>, a \<^verbatim>\<open>fetch\<close> or an XHR of the
  script resolves to; the interception callback when it is what the intercepted URL
  resolves to; the harvest of the markup analyzer when it is the \<^verbatim>\<open>src\<close> of an image, a script
  or a frame, the value of one of the attributes that the harvest reads, a candidate of a
  \<^verbatim>\<open>srcset\<close>, a reference of an inline style or of a style element, or the target of a link;
  and what the callback and the harvest call is what the markup analyzer calls.  The first
  analysis pass of a run and the expansion of a queue item make the calls of the analyzer
  for the kind of the text, and no others.  A call of
  \<^verbatim>\<open>recordUrl\<close> in a sequence of closure calls leaves its record in the request log: after the
  sequence, at the end of a run whose first analysis pass makes the call, and after the
  processing of a queue item whose expansion makes it.
\<close>

theorem skippable_logged_not_queued:
  assumes "startsWith (toLowerCase url) ''data:'' \<or> startsWith (toLowerCase url) ''javascript:''
           \<or> startsWith (toLowerCase url) ''about:''"
  shows "enqueue recursive url kind st = st
    \<and> (no_skippable st \<longrightarrow>
         url \<notin> set (processed (run_calls e recursive cs st))
         \<and> url \<notin> fst ` set (pending (run_calls e recursive cs st)))
    \<and> (no_skippable st \<and> processPending e opts st = Some (Returns st') \<longrightarrow>
         url \<notin> set (processed st') \<and> url \<notin> fst ` set (popped st'))
    \<and> resolveUrl e baseUrl url \<noteq> None
    \<and> (\<forall>v. truthy (resolveUrl e baseUrl url) = Some v \<longrightarrow>
          run_calls e recursive [RecordUrl url source baseUrl, Enqueue url kind] st
            = st\<lparr>requests := requests st @
                   [\<lparr>rr_url = v, rr_source = source,
                     rr_timestamp = env_date_now e (length (requests st))\<rparr>]\<rparr>)
    \<and> (extractCssDependencies css = Returns d
         \<and> ref \<in> set (css_imports d) \<union> set (css_urls d)
         \<and> truthy (resolveUrl e baseUrl ref) = Some url
        \<longrightarrow> (\<exists>ds. recordCssUrls e css baseUrl = Returns ds \<and> RecordUrl url S_css None \<in> set ds))
    \<and> (extractJsDependencies js = Returns jd
         \<and> truthy (resolveUrl e baseUrl ref) = Some url
         \<and> (Some ref \<in> set (js_imports jd) \<union> set (js_importScripts jd) \<and> source = S_resource
            \<or> Some ref \<in> set (js_fetches jd) \<and> source = S_fetch
            \<or> Some ref \<in> set (js_xhrs jd) \<and> source = S_xhr)
        \<longrightarrow> (\<exists>ds. analyzeJs e js baseUrl = Returns ds \<and> RecordUrl url source None \<in> set ds))
    \<and> (truthy (resolveUrl e (ic_referrer i) (ic_url i)) = Some url
        \<longrightarrow> RecordUrl url (case ic_source i of None \<Rightarrow> S_unknown | Some s \<Rightarrow> s) None
              \<in> set (interceptor e recursive i))
    \<and> (harvest e baseUrl els = Returns hs \<and> el \<in> set els \<longrightarrow>
          (el_html el \<and> el_src el = url \<and> has_tag ''img'' el
             \<longrightarrow> RecordUrl url S_img None \<in> set hs)
        \<and> (el_html el \<and> el_src el = url \<and> has_attr ''src'' el
             \<and> (has_tag ''script'' el \<or> has_tag ''iframe'' el)
             \<longrightarrow> RecordUrl url S_resource None \<in> set hs)
        \<and> (getAttribute el a = Some url
             \<and> (a = ''src'' \<and> (has_tag ''source'' el \<or> has_tag ''video'' el \<or> has_tag ''audio'' el
                               \<or> has_tag ''track'' el \<or> has_tag ''embed'' el)
                \<or> a = ''poster'' \<and> has_tag ''video'' el
                \<or> a = ''data'' \<and> has_tag ''object'' el)
             \<longrightarrow> RecordUrl url S_resource baseUrl \<in> set hs)
        \<and> (getAttribute el ''srcset'' = Some v \<and> url \<in> set (parseSrcsetUrls v)
             \<and> has_tag ''img'' el \<and> el_html el
             \<longrightarrow> RecordUrl url S_img baseUrl \<in> set hs)
        \<and> (getAttribute el ''srcset'' = Some v \<and> url \<in> set (parseSrcsetUrls v)
             \<and> has_tag ''source'' el
             \<longrightarrow> RecordUrl url S_resource baseUrl \<in> set hs)
        \<and> (css \<noteq> [] \<and> recordCssUrls e css baseUrl = Returns ds
             \<and> (getAttribute el ''style'' = Some css
                \<or> has_tag ''style'' el \<and> el_textContent el = css)
             \<longrightarrow> set ds \<subseteq> set hs)
        \<and> (has_tag ''link'' el \<and> has_attr ''rel'' el
             \<longrightarrow> set (link_calls e baseUrl el) \<subseteq> set hs))
    \<and> (el_html el \<and> getAttribute el ''rel'' = Some rel \<longrightarrow>
          (shouldInterceptLinkRel rel
             \<and> href = (case getAttribute el ''href'' of None \<Rightarrow> el_href el | Some h \<Rightarrow> h)
             \<and> href \<noteq> []
             \<and> url = (case resolveUrl e baseUrl href of None \<Rightarrow> href | Some r \<Rightarrow> r)
             \<longrightarrow> RecordUrl url S_resource None \<in> set (link_calls e baseUrl el))
        \<and> (str_includes (toLowerCase rel) ''preload''
             \<and> getAttribute el ''imagesrcset'' = Some v \<and> url \<in> set (parseSrcsetUrls v)
             \<longrightarrow> RecordUrl url S_resource baseUrl \<in> set (link_calls e baseUrl el)))
    \<and> (analyzeHtml e opts html baseUrl captureTitle = Returns (cs, title) \<longrightarrow>
          (\<exists>dm hs. env_jsdom e html baseUrl (settle_of opts) = Some dm
             \<and> harvest e baseUrl (dom_elements dm) = Returns hs \<and> set hs \<subseteq> set cs
             \<and> (\<forall>i \<in> set (dom_parse_intercepts dm) \<union> set (dom_settle_intercepts dm).
                   set (interceptor e (recursive_of opts) i) \<subseteq> set cs)))
    \<and> ((detectInputKind input = K_css \<and> recordCssUrls e input None = Returns ds
          \<longrightarrow> analyze_input e opts input = Returns (ds, None))
        \<and> (detectInputKind input = K_js \<and> analyzeJs e input None = Returns ds
          \<longrightarrow> analyze_input e opts input = Returns (ds, None))
        \<and> (detectInputKind input = K_html
          \<longrightarrow> analyze_input e opts input = analyzeHtml e opts input None True)
        \<and> (content_of e (fst item) = Some result
          \<longrightarrow> expansion e opts item = analyze_item e opts item result)
        \<and> ((case snd item of
               Some k \<Rightarrow> Some k
             | None \<Rightarrow> detectResourceKind (fst item) (rc_contentType result) (rc_text result))
              = Some K_css
          \<longrightarrow> analyze_item e opts item result
                = recordCssUrls e (rc_text result) (Some (fst item)))
        \<and> ((case snd item of
               Some k \<Rightarrow> Some k
             | None \<Rightarrow> detectResourceKind (fst item) (rc_contentType result) (rc_text result))
              = Some K_js
          \<longrightarrow> analyze_item e opts item result
                = analyzeJs e (rc_text result) (Some (fst item)))
        \<and> ((case snd item of
               Some k \<Rightarrow> Some k
             | None \<Rightarrow> detectResourceKind (fst item) (rc_contentType result) (rc_text result))
              = Some K_html
             \<and> analyzeHtml e opts (rc_text result) (Some (fst item)) False = Returns (cs, title)
          \<longrightarrow> analyze_item e opts item result = Returns cs))
    \<and> (RecordUrl url source baseUrl \<in> set cs \<and> truthy (resolveUrl e baseUrl url) = Some w \<longrightarrow>
          (w, source) \<in> set (map untimed (requests (run_calls e recursive cs st)))
        \<and> (analyze_input e opts input = Returns (cs, title)
             \<and> run e opts input = Some (Returns res)
             \<longrightarrow> (w, source) \<in> set (map untimed (res_requests res)))
        \<and> (cache_inv e st \<and> expansion e opts item = Returns cs
             \<and> process_item e opts item st = Returns st1
             \<longrightarrow> (w, source) \<in> set (map untimed (requests st1))))"
proof -
  from assms have skip: "isSkippableUrl url" by (simp add: isSkippableUrl_def)
  note ne = isSkippableUrl_nonempty[OF skip]
  have 1: "enqueue recursive url kind st = st" using skip by (rule enqueue_skippable)
  have 2: "no_skippable st \<longrightarrow>
         url \<notin> set (processed (run_calls e recursive cs st))
         \<and> url \<notin> fst ` set (pending (run_calls e recursive cs st))"
    using no_skippable_run_calls[of st e recursive cs] skip by (auto simp: no_skippable_def)
  have 3: "no_skippable st \<and> processPending e opts st = Some (Returns st') \<longrightarrow>
         url \<notin> set (processed st') \<and> url \<notin> fst ` set (popped st')"
    using no_skippable_processPending[of e opts st st'] skip by (auto simp: no_skippable_def)
  have 4: "resolveUrl e baseUrl url \<noteq> None"
    using ne by (simp add: resolveUrl_None_iff)
  have 5: "\<forall>v. truthy (resolveUrl e baseUrl url) = Some v \<longrightarrow>
          run_calls e recursive [RecordUrl url source baseUrl, Enqueue url kind] st
            = st\<lparr>requests := requests st @
                   [\<lparr>rr_url = v, rr_source = source,
                     rr_timestamp = env_date_now e (length (requests st))\<rparr>]\<rparr>"
    using skip by (auto simp: recordUrl_def enqueue_skippable)
  have 6: "extractCssDependencies css = Returns d
         \<and> ref \<in> set (css_imports d) \<union> set (css_urls d)
         \<and> truthy (resolveUrl e baseUrl ref) = Some url
        \<longrightarrow> (\<exists>ds. recordCssUrls e css baseUrl = Returns ds \<and> RecordUrl url S_css None \<in> set ds)"
    using recordCssUrls_records[of css d ref e baseUrl url] by blast
  have 7: "extractJsDependencies js = Returns jd
         \<and> truthy (resolveUrl e baseUrl ref) = Some url
         \<and> (Some ref \<in> set (js_imports jd) \<union> set (js_importScripts jd) \<and> source = S_resource
            \<or> Some ref \<in> set (js_fetches jd) \<and> source = S_fetch
            \<or> Some ref \<in> set (js_xhrs jd) \<and> source = S_xhr)
        \<longrightarrow> (\<exists>ds. analyzeJs e js baseUrl = Returns ds \<and> RecordUrl url source None \<in> set ds)"
    using analyzeJs_records[of js jd e baseUrl ref url source] by blast
  have 8: "truthy (resolveUrl e (ic_referrer i) (ic_url i)) = Some url
        \<longrightarrow> RecordUrl url (case ic_source i of None \<Rightarrow> S_unknown | Some s \<Rightarrow> s) None
              \<in> set (interceptor e recursive i)"
    using interceptor_records[of e i url recursive] by blast
  have 9: "harvest e baseUrl els = Returns hs \<and> el \<in> set els \<longrightarrow>
          (el_html el \<and> el_src el = url \<and> has_tag ''img'' el
             \<longrightarrow> RecordUrl url S_img None \<in> set hs)
        \<and> (el_html el \<and> el_src el = url \<and> has_attr ''src'' el
             \<and> (has_tag ''script'' el \<or> has_tag ''iframe'' el)
             \<longrightarrow> RecordUrl url S_resource None \<in> set hs)
        \<and> (getAttribute el a = Some url
             \<and> (a = ''src'' \<and> (has_tag ''source'' el \<or> has_tag ''video'' el \<or> has_tag ''audio'' el
                               \<or> has_tag ''track'' el \<or> has_tag ''embed'' el)
                \<or> a = ''poster'' \<and> has_tag ''video'' el
                \<or> a = ''data'' \<and> has_tag ''object'' el)
             \<longrightarrow> RecordUrl url S_resource baseUrl \<in> set hs)
        \<and> (getAttribute el ''srcset'' = Some v \<and> url \<in> set (parseSrcsetUrls v)
             \<and> has_tag ''img'' el \<and> el_html el
             \<longrightarrow> RecordUrl url S_img baseUrl \<in> set hs)
        \<and> (getAttribute el ''srcset'' = Some v \<and> url \<in> set (parseSrcsetUrls v)
             \<and> has_tag ''source'' el
             \<longrightarrow> RecordUrl url S_resource baseUrl \<in> set hs)
        \<and> (css \<noteq> [] \<and> recordCssUrls e css baseUrl = Returns ds
             \<and> (getAttribute el ''style'' = Some css
                \<or> has_tag ''style'' el \<and> el_textContent el = css)
             \<longrightarrow> set ds \<subseteq> set hs)
        \<and> (has_tag ''link'' el \<and> has_attr ''rel'' el
             \<longrightarrow> set (link_calls e baseUrl el) \<subseteq> set hs)"
  proof (intro impI, elim conjE)
    assume h: "harvest e baseUrl els = Returns hs" and el: "el \<in> set els"
    note l = harvest_loop[OF h el]
    have a: "el_html el \<and> el_src el = url \<and> has_tag ''img'' el
             \<longrightarrow> RecordUrl url S_img None \<in> set hs"
      using l(1) ne by auto
    have b: "el_html el \<and> el_src el = url \<and> has_attr ''src'' el
             \<and> (has_tag ''script'' el \<or> has_tag ''iframe'' el)
             \<longrightarrow> RecordUrl url S_resource None \<in> set hs"
      using l(5,6) ne by auto
    have c: "getAttribute el a = Some url
             \<and> (a = ''src'' \<and> (has_tag ''source'' el \<or> has_tag ''video'' el \<or> has_tag ''audio'' el
                               \<or> has_tag ''track'' el \<or> has_tag ''embed'' el)
                \<or> a = ''poster'' \<and> has_tag ''video'' el
                \<or> a = ''data'' \<and> has_tag ''object'' el)
             \<longrightarrow> RecordUrl url S_resource baseUrl \<in> set hs"
    proof
      assume p: "getAttribute el a = Some url
             \<and> (a = ''src'' \<and> (has_tag ''source'' el \<or> has_tag ''video'' el \<or> has_tag ''audio'' el
                               \<or> has_tag ''track'' el \<or> has_tag ''embed'' el)
                \<or> a = ''poster'' \<and> has_tag ''video'' el
                \<or> a = ''data'' \<and> has_tag ''object'' el)"
      then have at: "has_attr a el" by (simp add: has_attr_def)
      from p ne have r: "record_attr baseUrl a el = [RecordUrl url S_resource baseUrl]"
        by (simp add: record_attr_records)
      from p at have "set (record_attr baseUrl a el) \<subseteq> set hs"
        using l(3,7,8,9,10,11) by blast
      with r show "RecordUrl url S_resource baseUrl \<in> set hs" by simp
    qed
    have d1: "getAttribute el ''srcset'' = Some v \<and> url \<in> set (parseSrcsetUrls v)
             \<and> has_tag ''img'' el \<and> el_html el
             \<longrightarrow> RecordUrl url S_img baseUrl \<in> set hs"
      using l(2) record_srcset_records[of el "''srcset''" v url S_img baseUrl]
      by (auto simp: has_attr_def)
    have d2: "getAttribute el ''srcset'' = Some v \<and> url \<in> set (parseSrcsetUrls v)
             \<and> has_tag ''source'' el
             \<longrightarrow> RecordUrl url S_resource baseUrl \<in> set hs"
      using l(4) record_srcset_records[of el "''srcset''" v url S_resource baseUrl]
      by (auto simp: has_attr_def)
    have f: "css \<noteq> [] \<and> recordCssUrls e css baseUrl = Returns ds
             \<and> (getAttribute el ''style'' = Some css
                \<or> has_tag ''style'' el \<and> el_textContent el = css)
             \<longrightarrow> set ds \<subseteq> set hs"
      using harvest_styles[OF h el, of css ds] by blast
    have g: "has_tag ''link'' el \<and> has_attr ''rel'' el
             \<longrightarrow> set (link_calls e baseUrl el) \<subseteq> set hs"
      using harvest_link[OF h el] by blast
    from a b c d1 d2 f g show "(el_html el \<and> el_src el = url \<and> has_tag ''img'' el
             \<longrightarrow> RecordUrl url S_img None \<in> set hs)
        \<and> (el_html el \<and> el_src el = url \<and> has_attr ''src'' el
             \<and> (has_tag ''script'' el \<or> has_tag ''iframe'' el)
             \<longrightarrow> RecordUrl url S_resource None \<in> set hs)
        \<and> (getAttribute el a = Some url
             \<and> (a = ''src'' \<and> (has_tag ''source'' el \<or> has_tag ''video'' el \<or> has_tag ''audio'' el
                               \<or> has_tag ''track'' el \<or> has_tag ''embed'' el)
                \<or> a = ''poster'' \<and> has_tag ''video'' el
                \<or> a = ''data'' \<and> has_tag ''object'' el)
             \<longrightarrow> RecordUrl url S_resource baseUrl \<in> set hs)
        \<and> (getAttribute el ''srcset'' = Some v \<and> url \<in> set (parseSrcsetUrls v)
             \<and> has_tag ''img'' el \<and> el_html el
             \<longrightarrow> RecordUrl url S_img baseUrl \<in> set hs)
        \<and> (getAttribute el ''srcset'' = Some v \<and> url \<in> set (parseSrcsetUrls v)
             \<and> has_tag ''source'' el
             \<longrightarrow> RecordUrl url S_resource baseUrl \<in> set hs)
        \<and> (css \<noteq> [] \<and> recordCssUrls e css baseUrl = Returns ds
             \<and> (getAttribute el ''style'' = Some css
                \<or> has_tag ''style'' el \<and> el_textContent el = css)
             \<longrightarrow> set ds \<subseteq> set hs)
        \<and> (has_tag ''link'' el \<and> has_attr ''rel'' el
             \<longrightarrow> set (link_calls e baseUrl el) \<subseteq> set hs)"
      by (intro conjI)
  qed
  have 10: "el_html el \<and> getAttribute el ''rel'' = Some rel \<longrightarrow>
          (shouldInterceptLinkRel rel
             \<and> href = (case getAttribute el ''href'' of None \<Rightarrow> el_href el | Some h \<Rightarrow> h)
             \<and> href \<noteq> []
             \<and> url = (case resolveUrl e baseUrl href of None \<Rightarrow> href | Some r \<Rightarrow> r)
             \<longrightarrow> RecordUrl url S_resource None \<in> set (link_calls e baseUrl el))
        \<and> (str_includes (toLowerCase rel) ''preload''
             \<and> getAttribute el ''imagesrcset'' = Some v \<and> url \<in> set (parseSrcsetUrls v)
             \<longrightarrow> RecordUrl url S_resource baseUrl \<in> set (link_calls e baseUrl el))"
  proof (intro impI conjI)
    assume l: "el_html el \<and> getAttribute el ''rel'' = Some rel"
      and h: "shouldInterceptLinkRel rel
             \<and> href = (case getAttribute el ''href'' of None \<Rightarrow> el_href el | Some h \<Rightarrow> h)
             \<and> href \<noteq> []
             \<and> url = (case resolveUrl e baseUrl href of None \<Rightarrow> href | Some r \<Rightarrow> r)"
    from h have hr: "(case getAttribute el ''href'' of None \<Rightarrow> el_href el | Some h \<Rightarrow> h) = href"
      by blast
    from h have u: "url = (case resolveUrl e baseUrl href of None \<Rightarrow> href | Some r \<Rightarrow> r)"
      by blast
    from l h have "RecordUrl (case resolveUrl e baseUrl href of None \<Rightarrow> href | Some r \<Rightarrow> r)
                     S_resource None \<in> set (link_calls e baseUrl el)"
      by (intro link_calls_records_href[OF _ _ _ hr]) blast+
    then show "RecordUrl url S_resource None \<in> set (link_calls e baseUrl el)"
      unfolding u .
  next
    assume l: "el_html el \<and> getAttribute el ''rel'' = Some rel"
      and h: "str_includes (toLowerCase rel) ''preload''
             \<and> getAttribute el ''imagesrcset'' = Some v \<and> url \<in> set (parseSrcsetUrls v)"
    from l h show "RecordUrl url S_resource baseUrl \<in> set (link_calls e baseUrl el)"
      by (intro link_calls_records_srcset[where rel = rel and v = v]) blast+
  qed
  have 11: "analyzeHtml e opts html baseUrl captureTitle = Returns (cs, title) \<longrightarrow>
          (\<exists>dm hs. env_jsdom e html baseUrl (settle_of opts) = Some dm
             \<and> harvest e baseUrl (dom_elements dm) = Returns hs \<and> set hs \<subseteq> set cs
             \<and> (\<forall>i \<in> set (dom_parse_intercepts dm) \<union> set (dom_settle_intercepts dm).
                   set (interceptor e (recursive_of opts) i) \<subseteq> set cs))"
    using analyzeHtml_calls[of e opts html baseUrl captureTitle cs title] by blast
  have 12: "RecordUrl url source baseUrl \<in> set cs \<and> truthy (resolveUrl e baseUrl url) = Some w \<longrightarrow>
          (w, source) \<in> set (map untimed (requests (run_calls e recursive cs st)))
        \<and> (analyze_input e opts input = Returns (cs, title)
             \<and> run e opts input = Some (Returns res)
             \<longrightarrow> (w, source) \<in> set (map untimed (res_requests res)))
        \<and> (cache_inv e st \<and> expansion e opts item = Returns cs
             \<and> process_item e opts item st = Returns st1
             \<longrightarrow> (w, source) \<in> set (map untimed (requests st1)))"
    using run_calls_logs[of url source baseUrl cs e w recursive st]
      run_logs[of e opts input cs title url source baseUrl w res]
      process_item_logs[of e st opts item cs url source baseUrl w st1]
    by blast
  have 13: "(detectInputKind input = K_css \<and> recordCssUrls e input None = Returns ds
          \<longrightarrow> analyze_input e opts input = Returns (ds, None))
        \<and> (detectInputKind input = K_js \<and> analyzeJs e input None = Returns ds
          \<longrightarrow> analyze_input e opts input = Returns (ds, None))
        \<and> (detectInputKind input = K_html
          \<longrightarrow> analyze_input e opts input = analyzeHtml e opts input None True)
        \<and> (content_of e (fst item) = Some result
          \<longrightarrow> expansion e opts item = analyze_item e opts item result)
        \<and> ((case snd item of
               Some k \<Rightarrow> Some k
             | None \<Rightarrow> detectResourceKind (fst item) (rc_contentType result) (rc_text result))
              = Some K_css
          \<longrightarrow> analyze_item e opts item result
                = recordCssUrls e (rc_text result) (Some (fst item)))
        \<and> ((case snd item of
               Some k \<Rightarrow> Some k
             | None \<Rightarrow> detectResourceKind (fst item) (rc_contentType result) (rc_text result))
              = Some K_js
          \<longrightarrow> analyze_item e opts item result
                = analyzeJs e (rc_text result) (Some (fst item)))
        \<and> ((case snd item of
               Some k \<Rightarrow> Some k
             | None \<Rightarrow> detectResourceKind (fst item) (rc_contentType result) (rc_text result))
              = Some K_html
             \<and> analyzeHtml e opts (rc_text result) (Some (fst item)) False = Returns (cs, title)
          \<longrightarrow> analyze_item e opts item result = Returns cs)"
    by (simp add: analyze_input_def expansion_def analyze_item_def and_then_def)
  show ?thesis
    by (rule conjI[OF 1 conjI[OF 2 conjI[OF 3 conjI[OF 4 conjI[OF 5 conjI[OF 6 conjI[OF 7
          conjI[OF 8 conjI[OF 9 conjI[OF 10 conjI[OF 11 conjI[OF 13 12]]]]]]]]]]]])
qed

theorem skippable_logged_not_queued_witness:
  "enqueue True example_data_url (Some K_css) init_state = init_state
   \<and> requests (run_calls example_env True
        [RecordUrl example_data_url S_css None, Enqueue example_data_url (Some K_css)] init_state)
       = [\<lparr>rr_url = example_data_url, rr_source = S_css, rr_timestamp = 0\<rparr>]
   \<and> pending (run_calls example_env True
        [RecordUrl example_data_url S_css None, Enqueue example_data_url (Some K_css)] init_state)
       = []
   \<and> processed (run_calls example_env True
        [RecordUrl example_data_url S_css None, Enqueue example_data_url (Some K_css)] init_state)
       = []
   \<and> (\<exists>ds. recordCssUrls example_env example_skippable_css None = Returns ds
          \<and> RecordUrl example_data_url S_css None \<in> set ds
          \<and> Enqueue example_data_url (Some K_css) \<in> set ds
          \<and> (example_data_url, S_css)
               \<in> set (map untimed (requests (run_calls example_env True ds init_state)))
          \<and> example_data_url \<notin> set (processed (run_calls example_env True ds init_state))
          \<and> example_data_url \<notin> fst ` set (pending (run_calls example_env True ds init_state)))
   \<and> (\<exists>res. run example_env example_opts example_skippable_css = Some (Returns res)
          \<and> (example_data_url, S_css) \<in> set (map untimed (res_requests res)))
   \<and> (\<exists>ds. analyzeJs example_env example_skippable_js None = Returns ds
          \<and> RecordUrl example_data_url S_fetch None \<in> set ds
          \<and> Enqueue example_data_url None \<in> set ds
          \<and> (example_data_url, S_fetch)
               \<in> set (map untimed (requests (run_calls example_env True ds init_state)))
          \<and> example_data_url \<notin> fst ` set (pending (run_calls example_env True ds init_state)))
   \<and> RecordUrl example_data_url S_fetch None
         \<in> set (interceptor example_env True example_skippable_intercept)
   \<and> Enqueue example_data_url None
         \<in> set (interceptor example_env True example_skippable_intercept)
   \<and> example_data_url
         \<notin> fst ` set (pending (run_calls example_env True
                    (interceptor example_env True example_skippable_intercept) init_state))
   \<and> (\<exists>hs. harvest example_env None [example_skippable_img] = Returns hs
          \<and> RecordUrl example_data_url S_img None \<in> set hs)"
proof -
  let ?ds = "[RecordUrl example_data_url S_css None, Enqueue example_data_url (Some K_css)]"
  have pre: "startsWith (toLowerCase example_data_url) ''data:''
       \<or> startsWith (toLowerCase example_data_url) ''javascript:''
       \<or> startsWith (toLowerCase example_data_url) ''about:''"
    by code_simp
  have res: "truthy (resolveUrl example_env None example_data_url) = Some example_data_url"
    by code_simp
  have ex: "extractCssDependencies example_skippable_css
              = Returns \<lparr>css_imports = [example_data_url], css_urls = []\<rparr>"
    by code_simp
  have an: "analyze_input example_env example_opts example_skippable_css = Returns (?ds, None)"
    by code_simp
  have ns: "no_skippable init_state" by (simp add: no_skippable_def init_state_def)
  note t = skippable_logged_not_queued[OF pre, where recursive = True and kind = "Some K_css"
      and st = init_state and e = example_env and cs = ?ds and opts = example_opts
      and st' = init_state and baseUrl = None and source = S_css
      and css = example_skippable_css
      and d = "\<lparr>css_imports = [example_data_url], css_urls = []\<rparr>"
      and ref = example_data_url and w = example_data_url
      and input = example_skippable_css and title = None
      and res = "\<lparr>res_title = None, res_capturedAt = ''2026-01-01T00:00:00.000Z'',
                 res_requests =
                   [\<lparr>rr_url = example_data_url, rr_source = S_css, rr_timestamp = 0\<rparr>]\<rparr>"]
  note t1 = t[THEN conjunct1]
  note t2 = t[THEN conjunct2, THEN conjunct1]
  note t5 = t[THEN conjunct2, THEN conjunct2, THEN conjunct2, THEN conjunct2, THEN conjunct1]
  note t6 = t[THEN conjunct2, THEN conjunct2, THEN conjunct2, THEN conjunct2, THEN conjunct2,
              THEN conjunct1]
  note t12 = t[THEN conjunct2, THEN conjunct2, THEN conjunct2, THEN conjunct2, THEN conjunct2,
               THEN conjunct2, THEN conjunct2, THEN conjunct2, THEN conjunct2, THEN conjunct2,
               THEN conjunct2, THEN conjunct2]
  from t1 have a: "enqueue True example_data_url (Some K_css) init_state = init_state" .
  from t5[rule_format, OF res]
  have b: "run_calls example_env True ?ds init_state
        = init_state\<lparr>requests := requests init_state @
             [\<lparr>rr_url = example_data_url, rr_source = S_css,
               rr_timestamp = env_date_now example_env (length (requests init_state))\<rparr>]\<rparr>" .
  from t2[rule_format, OF ns]
  have c: "example_data_url \<notin> set (processed (run_calls example_env True ?ds init_state))
     \<and> example_data_url \<notin> fst ` set (pending (run_calls example_env True ?ds init_state))" .
  have "extractCssDependencies example_skippable_css
            = Returns \<lparr>css_imports = [example_data_url], css_urls = []\<rparr>
        \<and> example_data_url \<in> set (css_imports \<lparr>css_imports = [example_data_url], css_urls = []\<rparr>)
                               \<union> set (css_urls \<lparr>css_imports = [example_data_url], css_urls = []\<rparr>)
        \<and> truthy (resolveUrl example_env None example_data_url) = Some example_data_url"
    using ex res by simp
  from t6[rule_format, OF this]
  obtain ds where ds: "recordCssUrls example_env example_skippable_css None = Returns ds"
    "RecordUrl example_data_url S_css None \<in> set ds"
    by blast
  have rc: "recordCssUrls example_env example_skippable_css None = Returns ?ds"
    by code_simp
  from ds(1) rc have dsv: "ds = ?ds" by simp
  have "RecordUrl example_data_url S_css None \<in> set ?ds
        \<and> truthy (resolveUrl example_env None example_data_url) = Some example_data_url"
    using res by simp
  note t12' = t12[rule_format, OF this]
  from t12'[THEN conjunct1]
  have lg: "(example_data_url, S_css)
         \<in> set (map untimed (requests (run_calls example_env True ?ds init_state)))" .
  have "analyze_input example_env example_opts example_skippable_css = Returns (?ds, None)
        \<and> run example_env example_opts example_skippable_css
            = Some (Returns \<lparr>res_title = None, res_capturedAt = ''2026-01-01T00:00:00.000Z'',
                 res_requests =
                   [\<lparr>rr_url = example_data_url, rr_source = S_css, rr_timestamp = 0\<rparr>]\<rparr>)"
    using an run_skippable_example by simp
  from t12'[THEN conjunct2, THEN conjunct1, rule_format, OF this]
  have rl: "(example_data_url, S_css)
      \<in> set (map untimed (res_requests
            \<lparr>res_title = None, res_capturedAt = ''2026-01-01T00:00:00.000Z'',
             res_requests =
               [\<lparr>rr_url = example_data_url, rr_source = S_css, rr_timestamp = 0\<rparr>]\<rparr>))" .
  have 1: "requests (run_calls example_env True ?ds init_state)
       = [\<lparr>rr_url = example_data_url, rr_source = S_css, rr_timestamp = 0\<rparr>]"
    unfolding b by (simp add: init_state_def example_env_def)
  have 2: "pending (run_calls example_env True ?ds init_state) = []"
    unfolding b by (simp add: init_state_def)
  have 3: "processed (run_calls example_env True ?ds init_state) = []"
    unfolding b by (simp add: init_state_def)
  have 4: "\<exists>ds. recordCssUrls example_env example_skippable_css None = Returns ds
          \<and> RecordUrl example_data_url S_css None \<in> set ds
          \<and> Enqueue example_data_url (Some K_css) \<in> set ds
          \<and> (example_data_url, S_css)
               \<in> set (map untimed (requests (run_calls example_env True ds init_state)))
          \<and> example_data_url \<notin> set (processed (run_calls example_env True ds init_state))
          \<and> example_data_url \<notin> fst ` set (pending (run_calls example_env True ds init_state))"
    using ds dsv lg c by (intro exI[of _ ?ds]) simp
  have 5: "\<exists>res. run example_env example_opts example_skippable_css = Some (Returns res)
          \<and> (example_data_url, S_css) \<in> set (map untimed (res_requests res))"
    using run_skippable_example rl
    by (intro exI[of _ "\<lparr>res_title = None, res_capturedAt = ''2026-01-01T00:00:00.000Z'',
                 res_requests =
                   [\<lparr>rr_url = example_data_url, rr_source = S_css, rr_timestamp = 0\<rparr>]\<rparr>"])
       simp
  let ?js = "[RecordUrl example_data_url S_fetch None, Enqueue example_data_url None]"
  have exj: "extractJsDependencies example_skippable_js
               = Returns \<lparr>js_imports = [], js_importScripts = [],
                          js_fetches = [Some example_data_url], js_xhrs = []\<rparr>"
    by code_simp
  have aj: "analyzeJs example_env example_skippable_js None = Returns ?js"
    by code_simp
  note j = skippable_logged_not_queued[OF pre, where recursive = True and st = init_state
      and e = example_env and cs = ?js and baseUrl = None and source = S_fetch
      and js = example_skippable_js
      and jd = "\<lparr>js_imports = [], js_importScripts = [],
                 js_fetches = [Some example_data_url], js_xhrs = []\<rparr>"
      and ref = example_data_url and w = example_data_url
      and i = example_skippable_intercept]
  note j2 = j[THEN conjunct2, THEN conjunct1]
  note j7 = j[THEN conjunct2, THEN conjunct2, THEN conjunct2, THEN conjunct2, THEN conjunct2,
              THEN conjunct2, THEN conjunct1]
  note j8 = j[THEN conjunct2, THEN conjunct2, THEN conjunct2, THEN conjunct2, THEN conjunct2,
              THEN conjunct2, THEN conjunct2, THEN conjunct1]
  note j12 = j[THEN conjunct2, THEN conjunct2, THEN conjunct2, THEN conjunct2, THEN conjunct2,
               THEN conjunct2, THEN conjunct2, THEN conjunct2, THEN conjunct2, THEN conjunct2,
               THEN conjunct2, THEN conjunct2]
  have "extractJsDependencies example_skippable_js
            = Returns \<lparr>js_imports = [], js_importScripts = [],
                       js_fetches = [Some example_data_url], js_xhrs = []\<rparr>
        \<and> truthy (resolveUrl example_env None example_data_url) = Some example_data_url
        \<and> (Some example_data_url
              \<in> set (js_imports \<lparr>js_imports = [], js_importScripts = [],
                                   js_fetches = [Some example_data_url], js_xhrs = []\<rparr>)
                \<union> set (js_importScripts \<lparr>js_imports = [], js_importScripts = [],
                                   js_fetches = [Some example_data_url], js_xhrs = []\<rparr>)
              \<and> S_fetch = S_resource
            \<or> Some example_data_url
              \<in> set (js_fetches \<lparr>js_imports = [], js_importScripts = [],
                                   js_fetches = [Some example_data_url], js_xhrs = []\<rparr>)
              \<and> S_fetch = S_fetch
            \<or> Some example_data_url
              \<in> set (js_xhrs \<lparr>js_imports = [], js_importScripts = [],
                                   js_fetches = [Some example_data_url], js_xhrs = []\<rparr>)
              \<and> S_fetch = S_xhr)"
    using exj res by simp
  from j7[rule_format, OF this]
  obtain js where js: "analyzeJs example_env example_skippable_js None = Returns js"
    "RecordUrl example_data_url S_fetch None \<in> set js"
    by blast
  from js(1) aj have jsv: "js = ?js" by simp
  have "RecordUrl example_data_url S_fetch None \<in> set ?js
        \<and> truthy (resolveUrl example_env None example_data_url) = Some example_data_url"
    using res by simp
  from j12[rule_format, OF this, THEN conjunct1]
  have jl: "(example_data_url, S_fetch)
         \<in> set (map untimed (requests (run_calls example_env True ?js init_state)))" .
  from j2[rule_format, OF ns]
  have jq: "example_data_url \<notin> fst ` set (pending (run_calls example_env True ?js init_state))"
    by (rule conjunct2)
  have 6: "\<exists>ds. analyzeJs example_env example_skippable_js None = Returns ds
          \<and> RecordUrl example_data_url S_fetch None \<in> set ds
          \<and> Enqueue example_data_url None \<in> set ds
          \<and> (example_data_url, S_fetch)
               \<in> set (map untimed (requests (run_calls example_env True ds init_state)))
          \<and> example_data_url \<notin> fst ` set (pending (run_calls example_env True ds init_state))"
    using js jsv jl jq by (intro exI[of _ ?js]) simp
  have ri: "truthy (resolveUrl example_env (ic_referrer example_skippable_intercept)
                      (ic_url example_skippable_intercept)) = Some example_data_url"
    by code_simp
  have ic: "interceptor example_env True example_skippable_intercept = ?js"
    by code_simp
  from j8[rule_format, OF ri]
  have 7: "RecordUrl example_data_url S_fetch None
         \<in> set (interceptor example_env True example_skippable_intercept)"
    by (simp add: example_skippable_intercept_def)
  have 8: "Enqueue example_data_url None
         \<in> set (interceptor example_env True example_skippable_intercept)"
    by (simp add: ic)
  have 9: "example_data_url
         \<notin> fst ` set (pending (run_calls example_env True
                    (interceptor example_env True example_skippable_intercept) init_state))"
    unfolding ic by (rule jq)
  have hv: "harvest example_env None [example_skippable_img]
              = Returns [RecordUrl example_data_url S_img None]"
    by code_simp
  note h = skippable_logged_not_queued[OF pre, where e = example_env and baseUrl = None
      and els = "[example_skippable_img]" and el = example_skippable_img
      and hs = "[RecordUrl example_data_url S_img None]"]
  note h9 = h[THEN conjunct2, THEN conjunct2, THEN conjunct2, THEN conjunct2, THEN conjunct2,
              THEN conjunct2, THEN conjunct2, THEN conjunct2, THEN conjunct1]
  have "harvest example_env None [example_skippable_img]
            = Returns [RecordUrl example_data_url S_img None]
        \<and> example_skippable_img \<in> set [example_skippable_img]"
    using hv by simp
  note h9a = h9[rule_format, OF this, THEN conjunct1]
  have "el_html example_skippable_img \<and> el_src example_skippable_img = example_data_url
        \<and> has_tag ''img'' example_skippable_img"
    by code_simp
  from h9a[rule_format, OF this] hv
  have 10: "\<exists>hs. harvest example_env None [example_skippable_img] = Returns hs
          \<and> RecordUrl example_data_url S_img None \<in> set hs"
    by (intro exI[of _ "[RecordUrl example_data_url S_img None]"]) simp
  show ?thesis by (intro conjI) (rule a 1 2 3 4 5 6 7 8 9 10)+
qed

end
